theory Spec2Isabelle
  imports Complex_Main "HOL-Library.AList"
begin

section \<open>Exceptions\<close>

text \<open>
  The Python exceptions the modelled code can raise. \<open>Raised\<close> stands for whatever
  a user-supplied metric function raises on its own.
\<close>

datatype error =
    KeyError string
  | RecursionError
  | AssertionError
  | IndexError
  | ValueError
  | Raised string

section \<open>The Evaluator\<close>

subsection \<open>Program state\<close>

text \<open>
  Python dicts are mutable objects that are passed by reference, so they live in a store:
  \<open>dicts s a\<close> is the dict at address \<open>a\<close>, and the addresses below \<open>next_addr s\<close> are
  the allocated ones. \<open>world\<close> is everything else a metric function may read or write
  (a mocked function's call counter, for instance). Metric functions do not get hold of
  the dict store.
\<close>

type_synonym addr = nat

record ('v, 'w) pystate =
  dicts :: "addr \<Rightarrow> (string \<rightharpoonup> 'v)"
  next_addr :: addr
  world :: 'w

text \<open>
  A metric function is called as \<open>func(**dependency_values)\<close>: it receives the dict of
  its dependency values, may change the world, and returns a value or raises.
\<close>

type_synonym ('v, 'w) func = "(string \<rightharpoonup> 'v) \<Rightarrow> 'w \<Rightarrow> (error + 'v) \<times> 'w"

text \<open>
  An \<open>Evaluator\<close> object: \<open>metric_values\<close> is a reference to the dict of computed
  values, \<open>private_metrics\<close> is \<open>self._metrics\<close>, a dict from name to
  \<open>(func, dependencies)\<close> kept as an association list because \<open>compute\<close> iterates over
  its keys in insertion order.
\<close>

record ('v, 'w) evaluator =
  metric_values :: addr
  private_metrics :: "(string \<times> (('v, 'w) func \<times> string list)) list"

text \<open>What a caller may pass as \<open>initial_metrics\<close>: a reference to a dict, or anything else.\<close>

datatype pyarg = DictRef addr | NonDict

subsection \<open>Methods\<close>

text \<open>
  \<open>__init__\<close>: asserts that the argument is a dict, then stores \<open>initial_metrics.copy()\<close>,
  a newly allocated dict with the same entries, and an empty \<open>_metrics\<close>.
\<close>

definition Evaluator_init ::
  "pyarg \<Rightarrow> ('v, 'w) pystate \<Rightarrow> (error + ('v, 'w) evaluator) \<times> ('v, 'w) pystate" where
  "Evaluator_init initial_metrics s =
     (case initial_metrics of
        NonDict \<Rightarrow> (Inl AssertionError, s)
      | DictRef a \<Rightarrow>
          (let b = next_addr s in
           (Inr \<lparr>metric_values = b, private_metrics = []\<rparr>,
            s\<lparr>dicts := (dicts s)(b := dicts s a), next_addr := Suc b\<rparr>)))"

text \<open>
  \<open>add_metric\<close>: \<open>self._metrics[name] = (func, dependencies)\<close>. Assigning to an
  existing key keeps the key's position, a new key goes last, as \<open>AList.update\<close> does.
\<close>

definition add_metric ::
  "('v, 'w) evaluator \<Rightarrow> string \<Rightarrow> ('v, 'w) func \<Rightarrow> string list \<Rightarrow> ('v, 'w) evaluator" where
  "add_metric ev name func dependencies =
     ev\<lparr>private_metrics := AList.update name (func, dependencies) (private_metrics ev)\<rparr>"

text \<open>
  The loop of \<open>compute_metric\<close> over the dependencies: a dependency that is not a key
  of \<open>self.metric_values\<close> is computed by the recursive call \<open>cm\<close>; an exception
  leaves the loop.
\<close>

fun for_dependencies ::
  "(string \<Rightarrow> ('v, 'w) pystate \<Rightarrow> (error + unit) \<times> ('v, 'w) pystate) \<Rightarrow> addr \<Rightarrow> string list \<Rightarrow>
   ('v, 'w) pystate \<Rightarrow> (error + unit) \<times> ('v, 'w) pystate" where
  "for_dependencies cm mv [] s = (Inr (), s)"
| "for_dependencies cm mv (dependency # rest) s =
     (if dicts s mv dependency = None
      then (case cm dependency s of
              (Inl e, s') \<Rightarrow> (Inl e, s')
            | (Inr u, s') \<Rightarrow> for_dependencies cm mv rest s')
      else for_dependencies cm mv rest s)"

text \<open>
  \<open>{k: self.metric_values[k] for k in dependencies}\<close>: the first dependency that is
  not a key raises \<open>KeyError\<close>; otherwise the result is the dict restricted to the
  dependencies.
\<close>

definition dependency_values :: "(string \<rightharpoonup> 'v) \<Rightarrow> string list \<Rightarrow> error + (string \<rightharpoonup> 'v)" where
  "dependency_values d dependencies =
     (case find (\<lambda>k. d k = None) dependencies of
        Some k \<Rightarrow> Inl (KeyError k)
      | None \<Rightarrow> Inr (d |` set dependencies))"

text \<open>
  \<open>compute_metric\<close>. The first argument is the number of stack frames still available:
  Python raises \<open>RecursionError\<close> when the recursion goes deeper. The method never looks
  \<open>metric_name\<close> up in \<open>self.metric_values\<close>; only dependencies are skipped when
  they are present there.
\<close>

primrec compute_metric ::
  "nat \<Rightarrow> ('v, 'w) evaluator \<Rightarrow> string \<Rightarrow> ('v, 'w) pystate \<Rightarrow> (error + unit) \<times> ('v, 'w) pystate" where
  "compute_metric 0 ev metric_name s = (Inl RecursionError, s)"
| "compute_metric (Suc depth) ev metric_name s =
     (case map_of (private_metrics ev) metric_name of
        None \<Rightarrow> (Inl (KeyError metric_name), s)
      | Some (func, dependencies) \<Rightarrow>
          (case for_dependencies (compute_metric depth ev) (metric_values ev) dependencies s of
             (Inl e, s1) \<Rightarrow> (Inl e, s1)
           | (Inr u, s1) \<Rightarrow>
               (case dependency_values (dicts s1 (metric_values ev)) dependencies of
                  Inl e \<Rightarrow> (Inl e, s1)
                | Inr kwargs \<Rightarrow>
                    (case func kwargs (world s1) of
                       (Inl e, w) \<Rightarrow> (Inl e, s1\<lparr>world := w\<rparr>)
                     | (Inr values, w) \<Rightarrow>
                         (Inr (),
                          s1\<lparr>dicts := (dicts s1)(metric_values ev :=
                                 (dicts s1 (metric_values ev))(metric_name \<mapsto> values)),
                             world := w\<rparr>)))))"

text \<open>
  \<open>compute\<close>: every name of \<open>metric_names\<close> in turn, by default the keys of
  \<open>self._metrics\<close> in insertion order. The first exception ends the loop, and the call
  of \<open>compute\<close> takes one stack frame itself.
\<close>

fun compute_loop ::
  "nat \<Rightarrow> ('v, 'w) evaluator \<Rightarrow> string list \<Rightarrow> ('v, 'w) pystate \<Rightarrow> (error + unit) \<times> ('v, 'w) pystate" where
  "compute_loop depth ev [] s = (Inr (), s)"
| "compute_loop depth ev (metric_name # rest) s =
     (case compute_metric depth ev metric_name s of
        (Inl e, s') \<Rightarrow> (Inl e, s')
      | (Inr u, s') \<Rightarrow> compute_loop depth ev rest s')"

definition compute ::
  "nat \<Rightarrow> ('v, 'w) evaluator \<Rightarrow> string list option \<Rightarrow> ('v, 'w) pystate \<Rightarrow>
   (error + unit) \<times> ('v, 'w) pystate" where
  "compute depth ev metric_names s =
     (case depth of
        0 \<Rightarrow> (Inl RecursionError, s)
      | Suc d \<Rightarrow>
          compute_loop d ev
            (case metric_names of None \<Rightarrow> map fst (private_metrics ev) | Some ns \<Rightarrow> ns) s)"

text \<open>\<open>metric\<close>: \<open>self.metric_values[metric_name]\<close>, a \<open>KeyError\<close> when the name is absent.\<close>

definition metric :: "('v, 'w) evaluator \<Rightarrow> string \<Rightarrow> ('v, 'w) pystate \<Rightarrow> error + 'v" where
  "metric ev metric_name s =
     (case dicts s (metric_values ev) metric_name of
        None \<Rightarrow> Inl (KeyError metric_name)
      | Some v \<Rightarrow> Inr v)"

text \<open>\<open>metrics\<close> returns the reference \<open>self.metric_values\<close> itself, not a copy.\<close>

definition metrics :: "('v, 'w) evaluator \<Rightarrow> addr" where
  "metrics ev = metric_values ev"

subsection \<open>Callers\<close>

text \<open>
  A caller of an \<open>Evaluator\<close> issues method calls one after the other; an exception of
  one call is caught and the next call is made on the state as the failed call left it.
\<close>

datatype ('v, 'w) call =
    AddMetric string "('v, 'w) func" "string list"
  | ComputeMetric string
  | Compute "string list option"

fun client ::
  "nat \<Rightarrow> ('v, 'w) evaluator \<Rightarrow> ('v, 'w) call list \<Rightarrow> ('v, 'w) pystate \<Rightarrow>
   ('v, 'w) evaluator \<times> ('v, 'w) pystate" where
  "client depth ev [] s = (ev, s)"
| "client depth ev (AddMetric name func dependencies # calls) s =
     client depth (add_metric ev name func dependencies) calls s"
| "client depth ev (ComputeMetric name # calls) s =
     client depth ev calls (snd (compute_metric depth ev name s))"
| "client depth ev (Compute names # calls) s =
     client depth ev calls (snd (compute depth ev names s))"

subsection \<open>Relations between states and properties of registries\<close>

text \<open>
  \<open>others_kept mv s s'\<close>: from \<open>s\<close> to \<open>s'\<close> no dict was allocated and no dict other
  than the one at \<open>mv\<close> changed. \<open>keys_kept mv s s'\<close>: no key of the dict at \<open>mv\<close> was
  removed.
\<close>

definition others_kept :: "addr \<Rightarrow> ('v, 'w) pystate \<Rightarrow> ('v, 'w) pystate \<Rightarrow> bool" where
  "others_kept mv s s' \<longleftrightarrow> next_addr s' = next_addr s \<and> (\<forall>b. b \<noteq> mv \<longrightarrow> dicts s' b = dicts s b)"

definition keys_kept :: "addr \<Rightarrow> ('v, 'w) pystate \<Rightarrow> ('v, 'w) pystate \<Rightarrow> bool" where
  "keys_kept mv s s' \<longleftrightarrow> (\<forall>k. dicts s mv k \<noteq> None \<longrightarrow> dicts s' mv k \<noteq> None)"

text \<open>
  \<open>unresolvable reg seeded n\<close>: the name \<open>n\<close> is not seeded and is either not registered
  or is registered with a dependency that is itself unresolvable. So an unresolvable
  recipe reaches, through recipes that are not seeded, a name that is neither seeded nor
  registered.
\<close>

inductive unresolvable ::
  "(string \<times> (('v, 'w) func \<times> string list)) list \<Rightarrow> string set \<Rightarrow> string \<Rightarrow> bool"
  for reg :: "(string \<times> (('v, 'w) func \<times> string list)) list" and seeded :: "string set" where
    absent: "n \<notin> seeded \<Longrightarrow> map_of reg n = None \<Longrightarrow> unresolvable reg seeded n"
  | dependent: "n \<notin> seeded \<Longrightarrow> map_of reg n = Some (func, deps) \<Longrightarrow> m \<in> set deps \<Longrightarrow>
                unresolvable reg seeded m \<Longrightarrow> unresolvable reg seeded n"

text \<open>
  The exceptions that \<open>compute_metric\<close> lets out: the recursion limit, a \<open>KeyError\<close> for a
  name that is not registered, and whatever a registered function raises when it is
  called with values for its declared dependencies.
\<close>

definition recipe_raises :: "(string \<times> (('v, 'w) func \<times> string list)) list \<Rightarrow> error \<Rightarrow> bool" where
  "recipe_raises reg e \<longleftrightarrow>
     (\<exists>n func deps kw w. map_of reg n = Some (func, deps) \<and> dom kw = set deps \<and>
        fst (func kw w) = Inl e)"

definition structural :: "(string \<times> (('v, 'w) func \<times> string list)) list \<Rightarrow> error \<Rightarrow> bool" where
  "structural reg e \<longleftrightarrow>
     e = RecursionError \<or> (\<exists>k. e = KeyError k \<and> map_of reg k = None) \<or> recipe_raises reg e"

text \<open>
  \<open>depends_on_unresolvable\<close>: the name is registered and one of its dependencies is
  unresolvable; the name itself may be seeded. \<open>missing_or_raised\<close>: a \<open>KeyError\<close> for a
  name that is neither registered nor seeded, or an exception of a registered function.
  \<open>ranked\<close>: every dependency that is not seeded has a smaller rank than the name that
  depends on it, so the dependencies that can be descended into form no cycle.
  \<open>none_cached\<close>: the dict of computed values has all the seeded keys and no
  unresolvable one. \<open>outcome_ok\<close>: what \<open>compute_metric\<close> returns for a name that is
  unresolvable or depends on an unresolvable one, and for the other registered names.
\<close>

definition depends_on_unresolvable ::
  "(string \<times> (('v, 'w) func \<times> string list)) list \<Rightarrow> string set \<Rightarrow> string \<Rightarrow> bool" where
  "depends_on_unresolvable reg seeded n \<longleftrightarrow>
     (\<exists>func deps m. map_of reg n = Some (func, deps) \<and> m \<in> set deps \<and> unresolvable reg seeded m)"

definition missing_or_raised ::
  "(string \<times> (('v, 'w) func \<times> string list)) list \<Rightarrow> string set \<Rightarrow> error \<Rightarrow> bool" where
  "missing_or_raised reg seeded e \<longleftrightarrow>
     (\<exists>k. e = KeyError k \<and> map_of reg k = None \<and> k \<notin> seeded) \<or> recipe_raises reg e"

definition ranked ::
  "(string \<times> (('v, 'w) func \<times> string list)) list \<Rightarrow> string set \<Rightarrow> (string \<Rightarrow> nat) \<Rightarrow> bool" where
  "ranked reg seeded rank \<longleftrightarrow>
     (\<forall>n func deps m. map_of reg n = Some (func, deps) \<and> m \<in> set deps \<and> m \<notin> seeded \<longrightarrow>
        rank m < rank n)"

definition none_cached :: "('v, 'w) evaluator \<Rightarrow> string set \<Rightarrow> ('v, 'w) pystate \<Rightarrow> bool" where
  "none_cached ev seeded s \<longleftrightarrow>
     seeded \<subseteq> dom (dicts s (metric_values ev)) \<and>
     (\<forall>k. unresolvable (private_metrics ev) seeded k \<longrightarrow> dicts s (metric_values ev) k = None)"

definition outcome_ok :: "('v, 'w) evaluator \<Rightarrow> string set \<Rightarrow> string \<Rightarrow> (error + unit) \<Rightarrow> bool" where
  "outcome_ok ev seeded n r \<longleftrightarrow>
     (if unresolvable (private_metrics ev) seeded n \<or>
         depends_on_unresolvable (private_metrics ev) seeded n
      then \<exists>e. r = Inl e \<and> missing_or_raised (private_metrics ev) seeded e
      else map_of (private_metrics ev) n \<noteq> None \<longrightarrow>
           r = Inr () \<or> (\<exists>e. r = Inl e \<and> recipe_raises (private_metrics ev) e))"

subsection \<open>Example engines\<close>

text \<open>
  A state with the dict \<open>{'x': 5}\<close> at address 0 and a world that counts calls;
  \<open>add_ten\<close> is \<open>lambda x: x + 10\<close> and \<open>call_count\<close> is a mocked function that returns
  the number of calls made before; both count their calls in the world.
\<close>

definition seeded_x :: "(int, nat) pystate" where
  "seeded_x = \<lparr>dicts = (\<lambda>a. Map.empty)(0 := [''x'' \<mapsto> 5]), next_addr = 1, world = 0\<rparr>"

definition add_ten :: "(int, nat) func" where
  "add_ten kwargs calls =
     (case kwargs ''x'' of
        None \<Rightarrow> (Inl (Raised ''TypeError''), calls)
      | Some x \<Rightarrow> (Inr (x + 10), Suc calls))"

definition call_count :: "(int, nat) func" where
  "call_count kwargs calls = (Inr (int calls), Suc calls)"

definition counting_ev :: "(int, nat) evaluator" where
  "counting_ev = \<lparr>metric_values = 0, private_metrics = [(''n'', (call_count, []))]\<rparr>"

definition adding_ev :: "(int, nat) evaluator" where
  "adding_ev = \<lparr>metric_values = 0, private_metrics = [(''z'', (add_ten, [''x'']))]\<rparr>"

definition cyclic_ev :: "(int, nat) evaluator" where
  "cyclic_ev = \<lparr>metric_values = 0, private_metrics = [(''a'', (call_count, [''a'', ''c'']))]\<rparr>"

definition shadowed_ev :: "(int, nat) evaluator" where
  "shadowed_ev = \<lparr>metric_values = 0,
     private_metrics = [(''z'', (add_ten, [''x''])), (''x'', (call_count, [''c'']))]\<rparr>"

definition broken_ev :: "(int, nat) evaluator" where
  "broken_ev = \<lparr>metric_values = 0,
     private_metrics = [(''z'', (call_count, [''x'', ''y''])), (''y'', (call_count, [''c'']))]\<rparr>"

definition broken_rank :: "string \<Rightarrow> nat" where
  "broken_rank n = (if n = ''z'' then 2 else if n = ''y'' then 1 else 0)"

definition counted_once :: "(int, nat) pystate" where
  "counted_once = snd (compute_metric 2 counting_ev ''n'' seeded_x)"

definition counted_twice :: "(int, nat) pystate" where
  "counted_twice = snd (compute_metric 2 counting_ev ''n'' counted_once)"

definition copied_ev :: "(int, nat) evaluator" where
  "copied_ev = \<lparr>metric_values = 1, private_metrics = []\<rparr>"

definition copied_state :: "(int, nat) pystate" where
  "copied_state = seeded_x\<lparr>dicts := (dicts seeded_x)(1 := [''x'' \<mapsto> 5]), next_addr := 2\<rparr>"

definition copied_calls :: "(int, nat) call list" where
  "copied_calls = [AddMetric ''z'' add_ten [''x''], Compute None, ComputeMetric ''x'']"

section \<open>Floating-point values\<close>

text \<open>
  A float64 is a finite number, an infinity or NaN. Finite numbers are taken as reals and
  arithmetic on them is exact: rounding, overflow to an infinity, underflow and the sign
  of zero are left out of the model. What is modelled in full is how NaN and the
  infinities go through comparisons, arithmetic and the numpy functions used here.
\<close>

datatype float64 = Fin real | PInf | NInf | NaN

fun isnan :: "float64 \<Rightarrow> bool" where
  "isnan NaN = True"
| "isnan x = False"

fun isfinite :: "float64 \<Rightarrow> bool" where
  "isfinite (Fin x) = True"
| "isfinite x = False"

text \<open>The number a finite value stands for (0 for the others).\<close>

fun real_of :: "float64 \<Rightarrow> real" where
  "real_of (Fin x) = x"
| "real_of x = 0"

text \<open>The largest finite float64, \<open>numpy.finfo(float64).max\<close>.\<close>

definition DBL_MAX :: real where
  "DBL_MAX = (2 - 1 / 2 ^ 52) * 2 ^ 1023"

text \<open>
  \<open>numpy.nan_to_num\<close>: NaN becomes 0.0, the infinities become the largest and the
  smallest finite float64.
\<close>

fun nan_to_num :: "float64 \<Rightarrow> float64" where
  "nan_to_num NaN = Fin 0"
| "nan_to_num PInf = Fin DBL_MAX"
| "nan_to_num NInf = Fin (- DBL_MAX)"
| "nan_to_num (Fin x) = Fin x"

text \<open>Comparisons: every comparison with NaN is false.\<close>

fun fle :: "float64 \<Rightarrow> float64 \<Rightarrow> bool" where
  "fle NaN y = False"
| "fle x NaN = False"
| "fle NInf y = True"
| "fle x PInf = True"
| "fle PInf y = False"
| "fle x NInf = False"
| "fle (Fin x) (Fin y) = (x \<le> y)"

fun flt :: "float64 \<Rightarrow> float64 \<Rightarrow> bool" where
  "flt NaN y = False"
| "flt x NaN = False"
| "flt PInf y = False"
| "flt x NInf = False"
| "flt NInf y = True"
| "flt x PInf = True"
| "flt (Fin x) (Fin y) = (x < y)"

definition fge :: "float64 \<Rightarrow> float64 \<Rightarrow> bool" where
  "fge x y = fle y x"

definition fgt :: "float64 \<Rightarrow> float64 \<Rightarrow> bool" where
  "fgt x y = flt y x"

definition feq :: "float64 \<Rightarrow> float64 \<Rightarrow> bool" where
  "feq x y = (\<not> isnan x \<and> x = y)"

text \<open>Arithmetic with the IEEE rules for NaN and the infinities.\<close>

fun fneg :: "float64 \<Rightarrow> float64" where
  "fneg (Fin x) = Fin (- x)"
| "fneg PInf = NInf"
| "fneg NInf = PInf"
| "fneg NaN = NaN"

fun fadd :: "float64 \<Rightarrow> float64 \<Rightarrow> float64" where
  "fadd NaN y = NaN"
| "fadd x NaN = NaN"
| "fadd PInf NInf = NaN"
| "fadd NInf PInf = NaN"
| "fadd PInf y = PInf"
| "fadd NInf y = NInf"
| "fadd x PInf = PInf"
| "fadd x NInf = NInf"
| "fadd (Fin x) (Fin y) = Fin (x + y)"

definition fsub :: "float64 \<Rightarrow> float64 \<Rightarrow> float64" where
  "fsub x y = fadd x (fneg y)"

text \<open>The sign of a non-NaN value: \<open>-1\<close>, \<open>0\<close> or \<open>1\<close>.\<close>

fun fsgn :: "float64 \<Rightarrow> real" where
  "fsgn (Fin x) = sgn x"
| "fsgn PInf = 1"
| "fsgn NInf = - 1"
| "fsgn NaN = 0"

definition signed_inf :: "real \<Rightarrow> float64" where
  "signed_inf s = (if s = 0 then NaN else if 0 < s then PInf else NInf)"

fun fmul :: "float64 \<Rightarrow> float64 \<Rightarrow> float64" where
  "fmul NaN y = NaN"
| "fmul x NaN = NaN"
| "fmul (Fin x) (Fin y) = Fin (x * y)"
| "fmul x y = signed_inf (fsgn x * fsgn y)"

text \<open>
  Division as numpy does it: no exception, a finite number by zero is an infinity with
  the sign of the numerator (zero is taken as positive), \<open>0/0\<close> and \<open>inf/inf\<close> are NaN.
\<close>

fun fdiv :: "float64 \<Rightarrow> float64 \<Rightarrow> float64" where
  "fdiv NaN y = NaN"
| "fdiv x NaN = NaN"
| "fdiv (Fin x) (Fin y) = (if y = 0 then signed_inf x else Fin (x / y))"
| "fdiv (Fin x) y = Fin 0"
| "fdiv x (Fin y) = signed_inf (fsgn x * (if y < 0 then - 1 else 1))"
| "fdiv x y = NaN"

fun fsqrt :: "float64 \<Rightarrow> float64" where
  "fsqrt (Fin x) = (if x < 0 then NaN else Fin (sqrt x))"
| "fsqrt PInf = PInf"
| "fsqrt NInf = NaN"
| "fsqrt NaN = NaN"

definition fmax :: "float64 \<Rightarrow> float64 \<Rightarrow> float64" where
  "fmax x y = (if fle x y then y else x)"

section \<open>Sanitizing returns\<close>

text \<open>
  \<open>np.ravel(np.nonzero(~np.isnan(rets)))\<close>: the indices of the entries that are not NaN,
  in increasing order.
\<close>

definition nonzero_not_nan :: "float64 list \<Rightarrow> nat list" where
  "nonzero_not_nan rets = filter (\<lambda>i. \<not> isnan (rets ! i)) [0..<length rets]"

text \<open>The first of them, or \<open>-1\<close> when there is none.\<close>

definition first_non_nan_index :: "float64 list \<Rightarrow> int" where
  "first_non_nan_index rets =
     (case nonzero_not_nan rets of [] \<Rightarrow> - 1 | i # _ \<Rightarrow> int i)"

text \<open>
  Indexing with a boolean mask, \<open>a[mask]\<close>: the entries of \<open>a\<close> where the mask is true. numpy
  raises \<open>IndexError\<close> when the mask and the array have different lengths.
\<close>

definition mask_index :: "'a list \<Rightarrow> bool list \<Rightarrow> error + 'a list" where
  "mask_index a keep =
     (if length a = length keep then Inr (map fst (filter snd (zip a keep)))
      else Inl IndexError)"

text \<open>
  \<open>handle_non_finite_returns\<close>. The array \<open>rets\<close> is the caller's object and the
  assignment \<open>rets[:first_non_nan_index] = ...\<close> writes into it, so the function returns,
  first, the contents of the caller's array after the call and, second, its Python
  result: an exception or the pair \<open>(timestamps, rets)\<close>. Slices, \<open>nan_to_num\<close> and mask
  indexing make new arrays (or views that are only read); timestamps are never written.
\<close>

definition handle_non_finite_returns ::
  "'t list \<Rightarrow> float64 list \<Rightarrow> bool \<Rightarrow> bool \<Rightarrow> float64 list \<times> (error + 't list \<times> float64 list)" where
  "handle_non_finite_returns timestamps rets leading_non_finite_to_zeros
       subsequent_non_finite_to_zeros =
     (let first = first_non_nan_index rets;
          trim = (0 < first \<and> first < int (length rets));
          caller_rets =
            (if trim \<and> leading_non_finite_to_zeros
             then map nan_to_num (take (nat first) rets) @ drop (nat first) rets
             else rets);
          timestamps1 =
            (if trim \<and> \<not> leading_non_finite_to_zeros then drop (nat first) timestamps
             else timestamps);
          rets1 =
            (if trim \<and> \<not> leading_non_finite_to_zeros then drop (nat first) rets
             else caller_rets)
      in (caller_rets,
          if subsequent_non_finite_to_zeros then Inr (timestamps1, map nan_to_num rets1)
          else (case mask_index timestamps1 (map isfinite rets1) of
                  Inl e \<Rightarrow> Inl e
                | Inr timestamps2 \<Rightarrow>
                    (case mask_index rets1 (map isfinite rets1) of
                       Inl e \<Rightarrow> Inl e
                     | Inr rets2 \<Rightarrow> Inr (timestamps2, rets2)))))"

text \<open>The arrays of the doctests: six days and \<open>[nan, nan, 3, 4, nan, 5]\<close>.\<close>

definition doctest_rets :: "float64 list" where
  "doctest_rets = [NaN, NaN, Fin 3, Fin 4, NaN, Fin 5]"

definition doctest_days :: "nat list" where
  "doctest_days = [1, 2, 3, 4, 5, 6]"

section \<open>Rolling drawdown\<close>

text \<open>
  \<open>s.expanding(min_periods=1).max()\<close> of pandas: the running maximum of the values seen
  so far. pandas replaces the infinities by NaN before it runs the window function and
  the window function skips NaN, so only finite values count; the result is NaN as long
  as no finite value has been seen. The first argument of \<open>expanding_max_from\<close> is the
  maximum before the list starts, NaN when there is none.
\<close>

fun expanding_max_from :: "float64 \<Rightarrow> float64 list \<Rightarrow> float64 list" where
  "expanding_max_from m [] = []"
| "expanding_max_from m (x # xs) =
     (let m' = (if \<not> isfinite x then m else if isnan m then x else fmax m x)
      in m' # expanding_max_from m' xs)"

definition expanding_max :: "float64 list \<Rightarrow> float64 list" where
  "expanding_max xs = expanding_max_from NaN xs"

text \<open>
  One entry of \<open>np.where(s >= rolling_max, 0.0, -(s - rolling_max) / rolling_max)\<close>.
\<close>

definition drawdown :: "float64 \<Rightarrow> float64 \<Rightarrow> float64" where
  "drawdown s rolling_max =
     (if fge s rolling_max then Fin 0 else fdiv (fneg (fsub s rolling_max)) rolling_max)"

text \<open>\<open>compute_rolling_dd\<close>: both of its return statements return a tuple of two arrays.\<close>

definition compute_rolling_dd :: "'t list \<Rightarrow> float64 list \<Rightarrow> error + 't list \<times> float64 list" where
  "compute_rolling_dd timestamps equity =
     (if length timestamps \<noteq> length equity then Inl AssertionError
      else if timestamps = [] then Inr ([], [])
      else let rolling_max = expanding_max equity;
               dd = map2 drawdown equity rolling_max
           in Inr (timestamps, dd))"

subsection \<open>The running maximum in the words of the specification\<close>

text \<open>
  The finite values among the first \<open>i + 1\<close> entries, and the largest of them: the
  running maximum at index \<open>i\<close>, NaN when no entry so far is finite.
\<close>

definition finite_prefix :: "float64 list \<Rightarrow> nat \<Rightarrow> real list" where
  "finite_prefix xs i = map real_of (filter isfinite (take (Suc i) xs))"

definition prefix_max :: "float64 list \<Rightarrow> nat \<Rightarrow> float64" where
  "prefix_max xs i =
     (if finite_prefix xs i = [] then NaN else Fin (Max (set (finite_prefix xs i))))"

section \<open>The trailing three years\<close>

text \<open>
  A timestamp is given by its calendar fields; \<open>tod\<close> is the time of day in nanoseconds.
  On valid dates the order of \<open>numpy.datetime64\<close> values is the lexicographic order of the
  fields. NaT and the range limits of pandas timestamps are not modelled.
\<close>

record datetime64 =
  year :: int
  month :: nat
  day :: nat
  tod :: nat

definition dt_less :: "datetime64 \<Rightarrow> datetime64 \<Rightarrow> bool" where
  "dt_less a b \<longleftrightarrow>
     year a < year b \<or> (year a = year b \<and>
       (month a < month b \<or> (month a = month b \<and>
         (day a < day b \<or> (day a = day b \<and> tod a < tod b)))))"

definition dt_le :: "datetime64 \<Rightarrow> datetime64 \<Rightarrow> bool" where
  "dt_le a b \<longleftrightarrow> dt_less a b \<or> a = b"

definition is_leap :: "int \<Rightarrow> bool" where
  "is_leap y \<longleftrightarrow> y mod 4 = 0 \<and> (y mod 100 \<noteq> 0 \<or> y mod 400 = 0)"

definition days_in_month :: "int \<Rightarrow> nat \<Rightarrow> nat" where
  "days_in_month y m =
     (if m = 2 then (if is_leap y then 29 else 28)
      else if m = 4 \<or> m = 6 \<or> m = 9 \<or> m = 11 then 30
      else 31)"

text \<open>
  \<open>d.replace(year=y)\<close> keeps the other fields and raises \<open>ValueError\<close> when the day does
  not exist in the new year, which happens for 29 February.
\<close>

definition replace_year :: "datetime64 \<Rightarrow> int \<Rightarrow> error + datetime64" where
  "replace_year d y =
     (if day d \<le> days_in_month y (month d) then Inr (d\<lparr>year := y\<rparr>) else Inl ValueError)"

text \<open>
  \<open>np.datetime64(d.replace(year=d.year - 3))\<close> for the last timestamp \<open>d\<close>. A pandas
  timestamp is converted to \<open>numpy.datetime64\<close> as a \<open>datetime\<close>, which has microseconds
  only: the nanoseconds below a microsecond are dropped from the cutoff.
\<close>

definition start_3yr :: "datetime64 list \<Rightarrow> error + datetime64" where
  "start_3yr timestamps =
     (case replace_year (last timestamps) (year (last timestamps) - 3) of
        Inl e \<Rightarrow> Inl e
      | Inr d \<Rightarrow> Inr (d\<lparr>tod := (tod d div 1000) * 1000\<rparr>))"

text \<open>\<open>compute_dates_3yr\<close>: the timestamps strictly after the cutoff.\<close>

definition compute_dates_3yr :: "datetime64 list \<Rightarrow> error + datetime64 list" where
  "compute_dates_3yr timestamps =
     (if timestamps = [] then Inr []
      else (case start_3yr timestamps of
              Inl e \<Rightarrow> Inl e
            | Inr start \<Rightarrow> mask_index timestamps (map (\<lambda>t. dt_less start t) timestamps)))"

text \<open>
  \<open>compute_returns_3yr\<close>: the returns at the timestamps from \<open>timestamps_3yr[0]\<close> on;
  indexing an empty \<open>timestamps_3yr\<close> raises \<open>IndexError\<close>.
\<close>

definition compute_returns_3yr :: "datetime64 list \<Rightarrow> float64 list \<Rightarrow> error + float64 list" where
  "compute_returns_3yr timestamps returns =
     (if timestamps = [] then Inr []
      else if length timestamps \<noteq> length returns then Inl AssertionError
      else (case compute_dates_3yr timestamps of
              Inl e \<Rightarrow> Inl e
            | Inr [] \<Rightarrow> Inl IndexError
            | Inr (first_3yr # _) \<Rightarrow>
                mask_index returns (map (\<lambda>t. dt_le first_3yr t) timestamps)))"

text \<open>
  What \<open>compute_rolling_dd_3yr\<close> returns: its first return statement returns one array,
  its last one the tuple of \<open>compute_rolling_dd\<close>.
\<close>

datatype returned = OneArray "datetime64 list" | TwoArrays "datetime64 list" "float64 list"

text \<open>
  \<open>compute_rolling_dd_3yr\<close>: the cutoff is computed as in \<open>compute_dates_3yr\<close>, but the
  mask is \<open>timestamps >= start_3yr\<close>.
\<close>

definition compute_rolling_dd_3yr :: "datetime64 list \<Rightarrow> float64 list \<Rightarrow> error + returned" where
  "compute_rolling_dd_3yr timestamps equity =
     (if timestamps = [] then Inr (OneArray [])
      else (case start_3yr timestamps of
              Inl e \<Rightarrow> Inl e
            | Inr start \<Rightarrow>
                (case mask_index equity (map (\<lambda>t. dt_le start t) timestamps) of
                   Inl e \<Rightarrow> Inl e
                 | Inr equity' \<Rightarrow>
                     (case mask_index timestamps (map (\<lambda>t. dt_le start t) timestamps) of
                        Inl e \<Rightarrow> Inl e
                      | Inr timestamps' \<Rightarrow>
                          (case compute_rolling_dd timestamps' equity' of
                             Inl e \<Rightarrow> Inl e
                           | Inr (dates, dd) \<Rightarrow> Inr (TwoArrays dates dd))))))"

text \<open>Two dates exactly three years apart, for examples.\<close>

definition new_year_2015 :: datetime64 where
  "new_year_2015 = \<lparr>year = 2015, month = 1, day = 1, tod = 0\<rparr>"

definition new_year_2018 :: datetime64 where
  "new_year_2018 = \<lparr>year = 2018, month = 1, day = 1, tod = 0\<rparr>"

section \<open>Sortino ratio\<close>

text \<open>
  \<open>compute_sortino\<close>, with \<open>np.where\<close> as a map over the array. \<open>np.std\<close> is numpy's
  function: what it returns is the population standard deviation up to the rounding
  errors of numpy's summation, and the test \<open>sortino_denom == 0\<close> looks at that rounded
  value. It is therefore the first argument of the model, and what is proved of
  \<open>compute_sortino\<close> holds whatever \<open>np.std\<close> returns.
\<close>

definition compute_sortino ::
  "(float64 list \<Rightarrow> float64) \<Rightarrow> float64 list \<Rightarrow> float64 \<Rightarrow> float64 \<Rightarrow> float64" where
  "compute_sortino np_std returns amean periods_per_year =
     (if returns = [] \<or> \<not> isfinite amean \<or> fle periods_per_year (Fin 0) then NaN
      else let returns1 = map (\<lambda>r. if \<not> isfinite r then Fin 0 else r) returns;
               normalized_rets = map (\<lambda>r. if fgt r (Fin 0) then Fin 0 else r) returns1;
               sortino_denom = np_std normalized_rets;
               sortino = (if feq sortino_denom (Fin 0) then NaN
                          else fdiv amean (fmul sortino_denom (fsqrt periods_per_year)))
           in sortino)"

subsection \<open>The formula in the words of the specification\<close>

text \<open>
  The downside series: the returns with non-finite entries replaced by 0 and positive
  entries zeroed, that is, every finite return \<open>\<le> 0\<close> kept and 0 everywhere else.
\<close>

definition downside_series :: "float64 list \<Rightarrow> float64 list" where
  "downside_series returns = map (\<lambda>r. if isfinite r \<and> fle r (Fin 0) then r else Fin 0) returns"

text \<open>
  The population standard deviation of a list of reals, and the standard deviation of an
  array with every operation exact. \<open>np.std\<close> returns this value on an array where no
  intermediate result has to be rounded, such as \<open>[-1, 0]\<close> and \<open>[0, 0]\<close>, the arrays of
  the examples below; on other arrays its result may differ from it, also in being 0 or
  not.
\<close>

definition population_std :: "real list \<Rightarrow> real" where
  "population_std xs =
     (let n = real (length xs); mean = sum_list xs / n
      in sqrt (sum_list (map (\<lambda>x. (x - mean)\<^sup>2) xs) / n))"

definition exact_std :: "float64 list \<Rightarrow> float64" where
  "exact_std xs = Fin (population_std (map real_of xs))"

section \<open>The entry checks of the pipeline\<close>

text \<open>
  What a caller may pass for \<open>timestamps\<close> and \<open>rets\<close>: a numpy array of dtype float64, a
  numpy array of a datetime64 dtype, or any other object (a list, an array of another
  dtype).
\<close>

datatype pyobject = Float64Array "float64 list" | Datetime64Array "datetime64 list" | OtherObject

text \<open>
  Modelled from the spec: \<open>monotonically_increasing\<close> is imported from
  \<open>pyqstrat.pq_utils\<close>, whose source is not part of the repository's files here. The
  specification calls it the monotonicity check and requires a strictly increasing
  sequence without duplicates. It does not say what the check returns for an empty
  sequence; here an empty sequence counts as increasing.
\<close>

definition monotonically_increasing :: "datetime64 list \<Rightarrow> bool" where
  "monotonically_increasing timestamps = sorted_wrt dt_less timestamps"

text \<open>
  \<open>compute_return_metrics\<close> up to and including the call of the sanitizer. What follows
  in the source (the \<open>Evaluator\<close> is created from the sanitized arrays, the catalogue is
  registered and \<open>ev.compute()\<close> is called) is the parameter \<open>evaluate\<close>. The first
  component of the result is the caller's \<open>rets\<close> object after the call.
\<close>

definition compute_return_metrics ::
  "(datetime64 list \<Rightarrow> float64 list \<Rightarrow> float64 \<Rightarrow> error + 'r) \<Rightarrow>
   pyobject \<Rightarrow> pyobject \<Rightarrow> float64 \<Rightarrow> bool \<Rightarrow> bool \<Rightarrow> pyobject \<times> (error + 'r)" where
  "compute_return_metrics evaluate timestamps rets starting_equity leading_non_finite_to_zeros
       subsequent_non_finite_to_zeros =
     (if \<not> fgt starting_equity (Fin 0) then (rets, Inl AssertionError)
      else (case rets of
              Float64Array r \<Rightarrow>
                (case timestamps of
                   Datetime64Array t \<Rightarrow>
                     (if monotonically_increasing t
                      then (case handle_non_finite_returns t r leading_non_finite_to_zeros
                                   subsequent_non_finite_to_zeros of
                              (caller_rets, Inl e) \<Rightarrow> (Float64Array caller_rets, Inl e)
                            | (caller_rets, Inr (t', r')) \<Rightarrow>
                                (Float64Array caller_rets, evaluate t' r' starting_equity))
                      else (rets, Inl AssertionError))
                 | _ \<Rightarrow> (rets, Inl AssertionError))
            | _ \<Rightarrow> (rets, Inl AssertionError)))"

text \<open>The three assertions at the entry of \<open>compute_return_metrics\<close>, as one predicate.\<close>

definition entry_ok :: "pyobject \<Rightarrow> pyobject \<Rightarrow> float64 \<Rightarrow> bool" where
  "entry_ok timestamps rets starting_equity \<longleftrightarrow>
     fgt starting_equity (Fin 0) \<and>
     (case rets of Float64Array r \<Rightarrow> True | _ \<Rightarrow> False) \<and>
     (case timestamps of Datetime64Array t \<Rightarrow> monotonically_increasing t | _ \<Rightarrow> False)"

text \<open>An \<open>evaluate\<close> that reports the lengths of the arrays it is given.\<close>

definition lengths_seen :: "datetime64 list \<Rightarrow> float64 list \<Rightarrow> float64 \<Rightarrow> error + nat \<times> nat" where
  "lengths_seen t r e = Inr (length t, length r)"

section \<open>Properties of the Evaluator\<close>

subsection \<open>What a run of \<open>compute_metric\<close> preserves\<close>

lemma for_dependencies_rel:
  assumes refl: "\<And>s. Q s s"
    and trans: "\<And>s s' s''. Q s s' \<Longrightarrow> Q s' s'' \<Longrightarrow> Q s s''"
    and cm: "\<And>n s r s'. cm n s = (r, s') \<Longrightarrow> Q s s'"
    and run: "for_dependencies cm mv deps s = (r, s')"
  shows "Q s s'"
  using run
proof (induction deps arbitrary: s)
  case Nil
  then show ?case using refl by simp
next
  case (Cons dep rest)
  show ?case
  proof (cases "dicts s mv dep = None")
    case False
    with Cons.prems have "for_dependencies cm mv rest s = (r, s')" by simp
    then show ?thesis by (rule Cons.IH)
  next
    case True
    obtain r1 s1 where c: "cm dep s = (r1, s1)" by (cases "cm dep s")
    have q1: "Q s s1" using c by (rule cm)
    show ?thesis
    proof (cases r1)
      case (Inl e)
      with True c Cons.prems have "s' = s1" by simp
      with q1 show ?thesis by simp
    next
      case (Inr u)
      with True c Cons.prems have "for_dependencies cm mv rest s1 = (r, s')" by simp
      then have "Q s1 s'" by (rule Cons.IH)
      with q1 trans show ?thesis by blast
    qed
  qed
qed

lemma compute_metric_rel:
  assumes refl: "\<And>s. Q s s"
    and trans: "\<And>s s' s''. Q s s' \<Longrightarrow> Q s' s'' \<Longrightarrow> Q s s''"
    and upd: "\<And>s w. Q s (s\<lparr>world := w\<rparr>)"
    and store: "\<And>s n v w. Q s (s\<lparr>dicts := (dicts s)(metric_values ev := (dicts s (metric_values ev))(n \<mapsto> v)), world := w\<rparr>)"
    and run: "compute_metric depth ev n s = (r, s')"
  shows "Q s s'"
  using run
proof (induction depth arbitrary: n s r s')
  case 0
  then show ?case using refl by simp
next
  case (Suc depth)
  show ?case
  proof (cases "map_of (private_metrics ev) n")
    case None
    with Suc.prems refl show ?thesis by simp
  next
    case (Some fd)
    obtain func deps where fd: "fd = (func, deps)" by (cases fd)
    obtain r1 s1 where l: "for_dependencies (compute_metric depth ev) (metric_values ev) deps s = (r1, s1)"
      by (cases "for_dependencies (compute_metric depth ev) (metric_values ev) deps s")
    have q1: "Q s s1"
      by (rule for_dependencies_rel [where Q = Q, OF refl trans _ l]) (use Suc.IH in blast)+
    have "Q s1 s'"
      using Suc.prems Some fd l refl upd store
      by (auto split: sum.splits prod.splits)
    with q1 trans show ?thesis by blast
  qed
qed

lemma compute_metric_others_kept:
  "compute_metric depth ev n s = (r, s') \<Longrightarrow> others_kept (metric_values ev) s s'"
  by (rule compute_metric_rel [where Q = "others_kept (metric_values ev)"])
     (auto simp: others_kept_def)

lemma compute_metric_keys_kept:
  "compute_metric depth ev n s = (r, s') \<Longrightarrow> keys_kept (metric_values ev) s s'"
  by (rule compute_metric_rel [where Q = "keys_kept (metric_values ev)"])
     (auto simp: keys_kept_def)

lemma compute_loop_others_kept:
  "compute_loop depth ev ns s = (r, s') \<Longrightarrow> others_kept (metric_values ev) s s'"
proof (induction ns arbitrary: s)
  case Nil
  then show ?case by (simp add: others_kept_def)
next
  case (Cons n ns)
  obtain r1 s1 where c: "compute_metric depth ev n s = (r1, s1)"
    by (cases "compute_metric depth ev n s")
  from c have k1: "others_kept (metric_values ev) s s1" by (rule compute_metric_others_kept)
  show ?case
  proof (cases r1)
    case (Inl e)
    with c Cons.prems k1 show ?thesis by simp
  next
    case (Inr u)
    with c Cons.prems have "compute_loop depth ev ns s1 = (r, s')" by simp
    then have "others_kept (metric_values ev) s1 s'" by (rule Cons.IH)
    with k1 show ?thesis by (simp add: others_kept_def)
  qed
qed

lemma compute_others_kept:
  "compute depth ev names s = (r, s') \<Longrightarrow> others_kept (metric_values ev) s s'"
  by (cases depth) (auto simp: compute_def others_kept_def dest: compute_loop_others_kept)

lemma client_others_kept:
  "client depth ev calls s = (ev', s') \<Longrightarrow>
   metric_values ev' = metric_values ev \<and> others_kept (metric_values ev) s s'"
proof (induction depth ev calls s rule: client.induct)
  case (1 depth ev s)
  then show ?case by (simp add: others_kept_def)
next
  case (2 depth ev name func dependencies calls s)
  then show ?case by (simp add: add_metric_def)
next
  case (3 depth ev name calls s)
  have "others_kept (metric_values ev) s (snd (compute_metric depth ev name s))"
    by (rule compute_metric_others_kept [of depth ev name s "fst (compute_metric depth ev name s)"]) simp
  with 3 show ?case by (simp add: others_kept_def)
next
  case (4 depth ev names calls s)
  have "others_kept (metric_values ev) s (snd (compute depth ev names s))"
    by (rule compute_others_kept [of depth ev names s "fst (compute depth ev names s)"]) simp
  with 4 show ?case by (simp add: others_kept_def)
qed

lemma for_dependencies_cached:
  "\<forall>k\<in>set deps. dicts s mv k \<noteq> None \<Longrightarrow> for_dependencies cm mv deps s = (Inr (), s)"
  by (induction deps) auto

lemma find_Some_member: "find P xs = Some x \<Longrightarrow> x \<in> set xs \<and> P x"
  by (induction xs) (auto split: if_splits)

lemma dom_restrict_cached:
  "\<forall>k\<in>set deps. d k \<noteq> None \<Longrightarrow> dom (d |` set deps) = set deps"
  by (auto simp: restrict_map_def dom_def)

lemma dependency_values_Inr:
  "dependency_values d deps = Inr kw \<longleftrightarrow> (\<forall>k\<in>set deps. d k \<noteq> None) \<and> kw = d |` set deps"
proof (cases "find (\<lambda>k. d k = None) deps")
  case None
  then have "dependency_values d deps = Inr (d |` set deps)"
    by (simp add: dependency_values_def)
  moreover from None have "\<forall>k\<in>set deps. d k \<noteq> None"
    by (simp add: find_None_iff)
  ultimately show ?thesis by auto
next
  case (Some k)
  then have "dependency_values d deps = Inl (KeyError k)"
    by (simp add: dependency_values_def)
  moreover from find_Some_member [OF Some] have "k \<in> set deps" "d k = None" by simp_all
  ultimately show ?thesis by auto
qed

lemma unresolvable_unseeded: "unresolvable reg seeded n \<Longrightarrow> n \<notin> seeded"
  by (induction rule: unresolvable.cases) auto

lemma unresolvable_registered:
  "unresolvable reg seeded n \<Longrightarrow> map_of reg n = Some (func, deps) \<Longrightarrow>
   \<exists>m\<in>set deps. unresolvable reg seeded m"
  by (induction rule: unresolvable.cases) auto

lemma compute_metric_stores:
  "compute_metric depth ev n s = (Inr (), s') \<Longrightarrow> dicts s' (metric_values ev) n \<noteq> None"
  by (cases depth) (auto split: option.splits sum.splits prod.splits)

lemma for_dependencies_keys_kept:
  "for_dependencies (compute_metric depth ev) (metric_values ev) deps s = (r, s') \<Longrightarrow>
   keys_kept (metric_values ev) s s'"
  by (rule for_dependencies_rel [where Q = "keys_kept (metric_values ev)"])
     (auto simp: keys_kept_def dest: compute_metric_keys_kept)

lemma for_dependencies_all_cached:
  "for_dependencies (compute_metric depth ev) (metric_values ev) deps s = (Inr (), s') \<Longrightarrow>
   \<forall>m\<in>set deps. dicts s' (metric_values ev) m \<noteq> None"
proof (induction deps arbitrary: s)
  case Nil
  then show ?case by simp
next
  case (Cons dep rest)
  let ?mv = "metric_values ev"
  show ?case
  proof (cases "dicts s ?mv dep = None")
    case False
    with Cons.prems have rest: "for_dependencies (compute_metric depth ev) ?mv rest s = (Inr (), s')"
      by auto
    from for_dependencies_keys_kept [OF rest] False
    have "dicts s' ?mv dep \<noteq> None" unfolding keys_kept_def by blast
    with Cons.IH [OF rest] show ?thesis by simp
  next
    case True
    obtain r1 s1 where c: "compute_metric depth ev dep s = (r1, s1)"
      by (cases "compute_metric depth ev dep s")
    with True Cons.prems have r1: "r1 = Inr ()"
      and rest: "for_dependencies (compute_metric depth ev) ?mv rest s1 = (Inr (), s')"
      by (auto split: sum.splits)
    from c r1 have "dicts s1 ?mv dep \<noteq> None" by (auto dest: compute_metric_stores)
    with for_dependencies_keys_kept [OF rest]
    have "dicts s' ?mv dep \<noteq> None" unfolding keys_kept_def by blast
    with Cons.IH [OF rest] show ?thesis by simp
  qed
qed

subsection \<open>Unresolvable names and the exceptions of \<open>compute_metric\<close>\<close>

lemma resolvable_dependency:
  assumes "\<not> unresolvable reg seeded n" and "n \<notin> seeded"
  shows "map_of reg n \<noteq> None \<and> \<not> depends_on_unresolvable reg seeded n"
proof
  show "map_of reg n \<noteq> None"
  proof
    assume "map_of reg n = None"
    with assms(2) have "unresolvable reg seeded n" by (rule absent)
    with assms(1) show False by simp
  qed
  show "\<not> depends_on_unresolvable reg seeded n"
  proof
    assume "depends_on_unresolvable reg seeded n"
    then obtain func deps m where "map_of reg n = Some (func, deps)" "m \<in> set deps"
      "unresolvable reg seeded m"
      unfolding depends_on_unresolvable_def by blast
    with assms(2) have "unresolvable reg seeded n" by (auto intro: dependent)
    with assms(1) show False by simp
  qed
qed

lemma for_dependencies_outcome:
  assumes cm: "\<And>m s r s'. m \<in> D \<Longrightarrow> none_cached ev seeded s \<Longrightarrow>
                 compute_metric depth ev m s = (r, s') \<Longrightarrow>
                 none_cached ev seeded s' \<and> outcome_ok ev seeded m r"
  shows "set deps \<subseteq> D \<union> seeded \<Longrightarrow> none_cached ev seeded s \<Longrightarrow>
         for_dependencies (compute_metric depth ev) (metric_values ev) deps s = (r, s') \<Longrightarrow>
         none_cached ev seeded s' \<and>
         (if \<exists>m\<in>set deps. unresolvable (private_metrics ev) seeded m
          then \<exists>e. r = Inl e \<and> missing_or_raised (private_metrics ev) seeded e
          else r = Inr () \<and> (\<forall>m\<in>set deps. dicts s' (metric_values ev) m \<noteq> None) \<or>
               (\<exists>e. r = Inl e \<and> recipe_raises (private_metrics ev) e))"
proof (induction deps arbitrary: s)
  case Nil
  then show ?case by simp
next
  case (Cons dep rest)
  let ?mv = "metric_values ev"
  let ?reg = "private_metrics ev"
  from Cons.prems(1) have sub: "set rest \<subseteq> D \<union> seeded" and dep: "dep \<in> D \<union> seeded"
    by simp_all
  show ?case
  proof (cases "dicts s ?mv dep = None")
    case False
    with Cons.prems(2) have ok: "\<not> unresolvable ?reg seeded dep" by (auto simp: none_cached_def)
    from False Cons.prems(3)
    have rest: "for_dependencies (compute_metric depth ev) ?mv rest s = (r, s')" by auto
    from for_dependencies_keys_kept [OF rest] False
    have "dicts s' ?mv dep \<noteq> None" unfolding keys_kept_def by blast
    with Cons.IH [OF sub Cons.prems(2) rest] ok show ?thesis by (auto split: if_splits)
  next
    case True
    from True Cons.prems(2) have unseeded: "dep \<notin> seeded" by (auto simp: none_cached_def)
    with dep have "dep \<in> D" by simp
    obtain r1 s1 where c: "compute_metric depth ev dep s = (r1, s1)"
      by (cases "compute_metric depth ev dep s")
    from cm [OF \<open>dep \<in> D\<close> Cons.prems(2) c]
    have inv1: "none_cached ev seeded s1" and out1: "outcome_ok ev seeded dep r1" by simp_all
    show ?thesis
    proof (cases "unresolvable ?reg seeded dep")
      case bad: True
      with out1 obtain e where "r1 = Inl e" "missing_or_raised ?reg seeded e"
        by (auto simp: outcome_ok_def)
      with True c Cons.prems(3) inv1 bad show ?thesis by auto
    next
      case good: False
      from resolvable_dependency [OF good unseeded] out1 good
      have "r1 = Inr () \<or> (\<exists>e. r1 = Inl e \<and> recipe_raises ?reg e)"
        by (simp add: outcome_ok_def)
      then show ?thesis
      proof
        assume r1: "r1 = Inr ()"
        with True c Cons.prems(3)
        have rest: "for_dependencies (compute_metric depth ev) ?mv rest s1 = (r, s')" by simp
        from c r1 have "dicts s1 ?mv dep \<noteq> None" by (auto dest: compute_metric_stores)
        with for_dependencies_keys_kept [OF rest]
        have "dicts s' ?mv dep \<noteq> None" unfolding keys_kept_def by blast
        with Cons.IH [OF sub inv1 rest] good show ?thesis by (auto split: if_splits)
      next
        assume "\<exists>e. r1 = Inl e \<and> recipe_raises ?reg e"
        then obtain e where e: "r1 = Inl e" "recipe_raises ?reg e" by blast
        with True c Cons.prems(3) have "r = Inl e" "s' = s1" by simp_all
        with e inv1 show ?thesis by (auto simp: missing_or_raised_def)
      qed
    qed
  qed
qed

lemma compute_metric_outcome:
  assumes acyclic: "ranked (private_metrics ev) seeded rank"
  shows "none_cached ev seeded s \<Longrightarrow> rank n < depth \<Longrightarrow> compute_metric depth ev n s = (r, s') \<Longrightarrow>
         none_cached ev seeded s' \<and> outcome_ok ev seeded n r"
proof (induction depth arbitrary: n s r s')
  case 0
  then show ?case by simp
next
  case (Suc depth)
  let ?mv = "metric_values ev"
  let ?reg = "private_metrics ev"
  show ?case
  proof (cases "map_of ?reg n")
    case None
    with Suc.prems(3) have r: "r = Inl (KeyError n)" and s': "s' = s" by simp_all
    from None have "\<not> depends_on_unresolvable ?reg seeded n"
      by (simp add: depends_on_unresolvable_def)
    with None r have "outcome_ok ev seeded n r"
      by (auto simp: outcome_ok_def missing_or_raised_def dest: unresolvable_unseeded)
    with Suc.prems(1) s' show ?thesis by simp
  next
    case (Some fd)
    obtain func deps where fd: "fd = (func, deps)" by (cases fd)
    with Some have reg: "map_of ?reg n = Some (func, deps)" by simp
    obtain r1 s1 where l: "for_dependencies (compute_metric depth ev) ?mv deps s = (r1, s1)"
      by (cases "for_dependencies (compute_metric depth ev) ?mv deps s")
    have below: "rank m < depth" if "m \<in> set deps - seeded" for m
      using acyclic reg that Suc.prems(2) by (fastforce simp: ranked_def)
    have loop: "none_cached ev seeded s1 \<and>
         (if \<exists>m\<in>set deps. unresolvable ?reg seeded m
          then \<exists>e. r1 = Inl e \<and> missing_or_raised ?reg seeded e
          else r1 = Inr () \<and> (\<forall>m\<in>set deps. dicts s1 ?mv m \<noteq> None) \<or>
               (\<exists>e. r1 = Inl e \<and> recipe_raises ?reg e))"
      by (rule for_dependencies_outcome [where D = "set deps - seeded", OF _ _ Suc.prems(1) l])
         (use Suc.IH below in blast)+
    then have inv1: "none_cached ev seeded s1" by simp
    show ?thesis
    proof (cases "\<exists>m\<in>set deps. unresolvable ?reg seeded m")
      case True
      with loop obtain e where e: "r1 = Inl e" "missing_or_raised ?reg seeded e" by auto
      with Suc.prems(3) reg l have r: "r = Inl e" and s': "s' = s1" by simp_all
      from True reg have "depends_on_unresolvable ?reg seeded n"
        unfolding depends_on_unresolvable_def by blast
      with e r have "outcome_ok ev seeded n r" by (auto simp: outcome_ok_def)
      with inv1 s' show ?thesis by simp
    next
      case False
      with reg have good: "\<not> unresolvable ?reg seeded n" by (auto dest: unresolvable_registered)
      from False reg have free: "\<not> depends_on_unresolvable ?reg seeded n"
        by (auto simp: depends_on_unresolvable_def)
      from False loop
      have "r1 = Inr () \<and> (\<forall>m\<in>set deps. dicts s1 ?mv m \<noteq> None) \<or>
          (\<exists>e. r1 = Inl e \<and> recipe_raises ?reg e)"
        by simp
      then show ?thesis
      proof
        assume "\<exists>e. r1 = Inl e \<and> recipe_raises ?reg e"
        then obtain e where e: "r1 = Inl e" "recipe_raises ?reg e" by blast
        with Suc.prems(3) reg l have "r = Inl e" "s' = s1" by simp_all
        with e inv1 good free show ?thesis by (simp add: outcome_ok_def)
      next
        assume ok: "r1 = Inr () \<and> (\<forall>m\<in>set deps. dicts s1 ?mv m \<noteq> None)"
        then have r1: "r1 = Inr ()" and all: "\<forall>m\<in>set deps. dicts s1 ?mv m \<noteq> None"
          by simp_all
        from all have dv: "dependency_values (dicts s1 ?mv) deps = Inr (dicts s1 ?mv |` set deps)"
          by (simp add: dependency_values_Inr)
        from all have dom: "dom (dicts s1 ?mv |` set deps) = set deps"
          by (rule dom_restrict_cached)
        obtain r2 w where call: "func (dicts s1 ?mv |` set deps) (world s1) = (r2, w)"
          by (cases "func (dicts s1 ?mv |` set deps) (world s1)")
        show ?thesis
        proof (cases r2)
          case (Inl e)
          with Suc.prems(3) reg l r1 dv call
          have r: "r = Inl e" and s': "s' = s1\<lparr>world := w\<rparr>" by simp_all
          from reg dom call Inl have "recipe_raises ?reg e"
            unfolding recipe_raises_def by (metis fst_conv)
          moreover from inv1 s' have "none_cached ev seeded s'" by (simp add: none_cached_def)
          ultimately show ?thesis using r good free by (simp add: outcome_ok_def)
        next
          case (Inr v)
          with Suc.prems(3) reg l r1 dv call
          have r: "r = Inr ()"
            and s': "s' = s1\<lparr>dicts := (dicts s1)(?mv := (dicts s1 ?mv)(n \<mapsto> v)), world := w\<rparr>"
            by simp_all
          from inv1 good s' have "none_cached ev seeded s'" by (auto simp: none_cached_def)
          with r good free show ?thesis by (simp add: outcome_ok_def)
        qed
      qed
    qed
  qed
qed

lemma for_dependencies_error:
  assumes cm: "\<And>m s e s'. cm m s = (Inl e, s') \<Longrightarrow> P e"
  shows "for_dependencies cm mv deps s = (Inl e, s') \<Longrightarrow> P e"
proof (induction deps arbitrary: s)
  case Nil
  then show ?case by simp
next
  case (Cons dep rest)
  show ?case
  proof (cases "dicts s mv dep = None")
    case False
    with Cons.prems have "for_dependencies cm mv rest s = (Inl e, s')" by auto
    then show ?thesis by (rule Cons.IH)
  next
    case True
    obtain r1 s1 where c: "cm dep s = (r1, s1)" by (cases "cm dep s")
    show ?thesis
    proof (cases r1)
      case (Inl e1)
      with True c Cons.prems have "e1 = e" by simp
      with c Inl cm show ?thesis by blast
    next
      case (Inr u)
      with True c Cons.prems have "for_dependencies cm mv rest s1 = (Inl e, s')" by simp
      then show ?thesis by (rule Cons.IH)
    qed
  qed
qed

lemma compute_metric_failures:
  "compute_metric depth ev n s = (Inl e, s') \<Longrightarrow> structural (private_metrics ev) e"
proof (induction depth arbitrary: n s e s')
  case 0
  then show ?case by (simp add: structural_def)
next
  case (Suc depth)
  let ?mv = "metric_values ev"
  let ?reg = "private_metrics ev"
  show ?case
  proof (cases "map_of ?reg n")
    case None
    with Suc.prems show ?thesis by (auto simp: structural_def)
  next
    case (Some fd)
    obtain func deps where fd: "fd = (func, deps)" by (cases fd)
    with Some have reg: "map_of ?reg n = Some (func, deps)" by simp
    obtain r1 s1 where l: "for_dependencies (compute_metric depth ev) ?mv deps s = (r1, s1)"
      by (cases "for_dependencies (compute_metric depth ev) ?mv deps s")
    show ?thesis
    proof (cases r1)
      case (Inl e1)
      with Suc.prems reg l have "e1 = e" by simp
      with l Inl have "for_dependencies (compute_metric depth ev) ?mv deps s = (Inl e, s1)" by simp
      then show ?thesis
        by (rule for_dependencies_error [where P = "structural ?reg", rotated]) (rule Suc.IH)
    next
      case (Inr u)
      with l have all: "\<forall>m\<in>set deps. dicts s1 ?mv m \<noteq> None"
        by (auto dest: for_dependencies_all_cached)
      then have dv: "dependency_values (dicts s1 ?mv) deps = Inr (dicts s1 ?mv |` set deps)"
        by (simp add: dependency_values_Inr)
      from all have "dom (dicts s1 ?mv |` set deps) = set deps"
        by (rule dom_restrict_cached)
      moreover from Suc.prems reg l Inr dv
      have "fst (func (dicts s1 ?mv |` set deps) (world s1)) = Inl e"
        by (auto split: sum.splits prod.splits)
      ultimately have "recipe_raises ?reg e" using reg unfolding recipe_raises_def by blast
      then show ?thesis by (simp add: structural_def)
    qed
  qed
qed

lemma cyclic_ev_recursion:
  "compute_metric depth cyclic_ev ''a'' seeded_x = (Inl RecursionError, seeded_x)"
  by (induction depth) (simp_all add: cyclic_ev_def seeded_x_def)

subsection \<open>Claims about the Evaluator\<close>

text \<open>
  C1, as stated: \<open>compute_metric\<close> on a name that already has a value in
  \<open>metric_values\<close> returns that value without calling the function again. It does not:
  on \<open>counting_ev\<close> the second call in a row calls the mocked function a second time (the
  world counts two calls) and replaces the stored value 0 by 1.
\<close>

theorem compute_metric_twice_counterexample:
  "metric counting_ev ''n'' counted_once = Inr 0 \<and> world counted_once = 1 \<and>
   fst (compute_metric 2 counting_ev ''n'' counted_once) = Inr () \<and>
   metric counting_ev ''n'' counted_twice = Inr 1 \<and> world counted_twice = 2"
  by (simp add: counted_twice_def counted_once_def counting_ev_def seeded_x_def call_count_def
      metric_def dependency_values_def eval_nat_numeral)

text \<open>
  C1, amended: after a successful \<open>compute_metric(name)\<close>, a second
  \<open>compute_metric(name)\<close> computes no dependency again (each one is cached) but calls the
  function of \<open>name\<close> once more, on the cached dependency values, and stores what it
  returns over the cached value. The value stays the same when the function's result
  does not depend on the world and \<open>name\<close> is not among its own dependencies.
\<close>


theorem compute_metric_again:
  assumes reg: "map_of (private_metrics ev) name = Some (func, deps)"
    and first: "compute_metric (Suc depth) ev name s = (Inr (), s1)"
  shows "compute_metric (Suc depth') ev name s1 =
           (case func (dicts s1 (metric_values ev) |` set deps) (world s1) of
              (Inl e, w) \<Rightarrow> (Inl e, s1\<lparr>world := w\<rparr>)
            | (Inr values, w) \<Rightarrow>
                (Inr (), s1\<lparr>dicts := (dicts s1)(metric_values ev :=
                                (dicts s1 (metric_values ev))(name \<mapsto> values)),
                            world := w\<rparr>))
         \<and> ((\<forall>kw w w'. fst (func kw w) = fst (func kw w')) \<and> name \<notin> set deps \<longrightarrow>
              fst (compute_metric (Suc depth') ev name s1) = Inr () \<and>
              dicts (snd (compute_metric (Suc depth') ev name s1)) (metric_values ev) name =
              dicts s1 (metric_values ev) name)"
proof -
  let ?mv = "metric_values ev"
  obtain r0 s0 where l: "for_dependencies (compute_metric depth ev) ?mv deps s = (r0, s0)"
    by (cases "for_dependencies (compute_metric depth ev) ?mv deps s")
  from first reg l obtain kw v w where
    dv: "dependency_values (dicts s0 ?mv) deps = Inr kw"
    and call: "func kw (world s0) = (Inr v, w)"
    and s1: "s1 = s0\<lparr>dicts := (dicts s0)(?mv := (dicts s0 ?mv)(name \<mapsto> v)), world := w\<rparr>"
    by (auto split: sum.splits prod.splits)
  from dv have all0: "\<forall>k\<in>set deps. dicts s0 ?mv k \<noteq> None" and kw: "kw = dicts s0 ?mv |` set deps"
    by (simp_all add: dependency_values_Inr)
  from all0 s1 have all1: "\<forall>k\<in>set deps. dicts s1 ?mv k \<noteq> None" by simp
  then have loop: "for_dependencies (compute_metric depth' ev) ?mv deps s1 = (Inr (), s1)"
    by (rule for_dependencies_cached)
  from all1 have dv1: "dependency_values (dicts s1 ?mv) deps = Inr (dicts s1 ?mv |` set deps)"
    by (simp add: dependency_values_Inr)
  have again: "compute_metric (Suc depth') ev name s1 =
           (case func (dicts s1 ?mv |` set deps) (world s1) of
              (Inl e, w) \<Rightarrow> (Inl e, s1\<lparr>world := w\<rparr>)
            | (Inr values, w) \<Rightarrow>
                (Inr (), s1\<lparr>dicts := (dicts s1)(?mv := (dicts s1 ?mv)(name \<mapsto> values)),
                            world := w\<rparr>))"
    using reg loop dv1 by simp
  have same: "fst (compute_metric (Suc depth') ev name s1) = Inr () \<and>
      dicts (snd (compute_metric (Suc depth') ev name s1)) ?mv name = dicts s1 ?mv name"
    if pure: "\<forall>kw w w'. fst (func kw w) = fst (func kw w')" and self: "name \<notin> set deps"
  proof -
    from self s1 kw have "dicts s1 ?mv |` set deps = kw"
      by (auto simp: restrict_map_def fun_eq_iff)
    moreover from pure call have "fst (func kw (world s1)) = Inr v"
      by (metis fst_conv)
    ultimately obtain w' where "func (dicts s1 ?mv |` set deps) (world s1) = (Inr v, w')"
      by (cases "func kw (world s1)") auto
    with again s1 show ?thesis by simp
  qed
  from again same show ?thesis by blast
qed


theorem compute_metric_again_witness:
  "map_of (private_metrics adding_ev) ''z'' = Some (add_ten, [''x'']) \<and>
   compute_metric (Suc 0) adding_ev ''z'' seeded_x =
     (Inr (), seeded_x\<lparr>dicts := (dicts seeded_x)(0 := [''x'' \<mapsto> 5, ''z'' \<mapsto> 15]), world := 1\<rparr>) \<and>
   (\<forall>kw w w'. fst (add_ten kw w) = fst (add_ten kw w')) \<and> ''z'' \<notin> set [''x''] \<and>
   compute_metric (Suc 0) adding_ev ''z''
     (seeded_x\<lparr>dicts := (dicts seeded_x)(0 := [''x'' \<mapsto> 5, ''z'' \<mapsto> 15]), world := 1\<rparr>) =
     (Inr (), seeded_x\<lparr>dicts := (dicts seeded_x)(0 := [''x'' \<mapsto> 5, ''z'' \<mapsto> 15]), world := 2\<rparr>)"
proof -
  let ?s1 = "seeded_x\<lparr>dicts := (dicts seeded_x)(0 := [''x'' \<mapsto> 5, ''z'' \<mapsto> 15]), world := 1\<rparr>"
  have reg: "map_of (private_metrics adding_ev) ''z'' = Some (add_ten, [''x''])"
    by (simp add: adding_ev_def)
  have first: "compute_metric (Suc 0) adding_ev ''z'' seeded_x = (Inr (), ?s1)"
    by (simp add: adding_ev_def seeded_x_def add_ten_def dependency_values_def)
  have pure: "\<forall>kw w w'. fst (add_ten kw w) = fst (add_ten kw w')"
    by (simp add: add_ten_def split: option.splits)
  have self: "''z'' \<notin> set [''x'']" by simp
  from compute_metric_again [OF reg first, of 0]
  have "compute_metric (Suc 0) adding_ev ''z'' ?s1 =
          (case add_ten (dicts ?s1 (metric_values adding_ev) |` set [''x'']) (world ?s1) of
             (Inl e, w) \<Rightarrow> (Inl e, ?s1\<lparr>world := w\<rparr>)
           | (Inr values, w) \<Rightarrow>
               (Inr (), ?s1\<lparr>dicts := (dicts ?s1)(metric_values adding_ev :=
                               (dicts ?s1 (metric_values adding_ev))(''z'' \<mapsto> values)),
                           world := w\<rparr>))"
    by blast
  then have "compute_metric (Suc 0) adding_ev ''z'' ?s1 =
      (Inr (), seeded_x\<lparr>dicts := (dicts seeded_x)(0 := [''x'' \<mapsto> 5, ''z'' \<mapsto> 15]), world := 2\<rparr>)"
    by (simp add: adding_ev_def seeded_x_def add_ten_def)
  with reg first pure self show ?thesis by blast
qed

text \<open>
  C2, as stated: whenever a recipe has a direct or transitive dependency that is neither
  seeded nor registered, resolving the recipe fails with the missing-dependency error
  rather than succeeding or looping, and that error and the one of \<open>metric\<close> are the only
  failures. Neither holds. In \<open>cyclic_ev\<close> the recipe \<open>a\<close> depends on itself and on the
  missing \<open>c\<close>: the recursion never reaches \<open>c\<close> and ends in \<open>RecursionError\<close> at Python's
  default limit of 1000 frames (and at any other). In \<open>shadowed_ev\<close> the recipe \<open>z\<close>
  depends on \<open>x\<close>, whose own recipe depends on the missing \<open>c\<close>; \<open>x\<close> is seeded, so it is
  not computed and \<open>z\<close> is resolved successfully.
\<close>

theorem unresolved_dependency_counterexample:
  "map_of (private_metrics cyclic_ev) ''c'' = None \<and> dicts seeded_x 0 ''c'' = None \<and>
   compute_metric 1000 cyclic_ev ''a'' seeded_x = (Inl RecursionError, seeded_x) \<and>
   map_of (private_metrics shadowed_ev) ''c'' = None \<and>
   fst (compute_metric 2 shadowed_ev ''z'' seeded_x) = Inr ()"
proof -
  have "fst (compute_metric 2 shadowed_ev ''z'' seeded_x) = Inr ()"
    by (simp add: shadowed_ev_def seeded_x_def add_ten_def dependency_values_def eval_nat_numeral)
  then show ?thesis
    using cyclic_ev_recursion [of 1000]
    by (simp add: cyclic_ev_def shadowed_ev_def seeded_x_def)
qed

text \<open>
  C2, amended: a name is unresolvable when it is not seeded and is either unregistered
  or depends, through recipes that are not seeded, on a name that is neither seeded nor
  registered. When the dependencies that are not seeded form no cycle (they are ranked)
  and the recursion limit exceeds the rank of the name, \<open>compute_metric\<close> on an
  unresolvable name, or on a registered name (seeded or not) one of whose dependencies is
  unresolvable, fails: with \<open>KeyError\<close> for a name that is neither registered nor seeded, or with the
  exception of a registered function that was called before the missing name was
  reached. In every engine, cyclic ones and ones with raising functions included, the
  exceptions of \<open>compute_metric\<close> are \<open>RecursionError\<close>, \<open>KeyError\<close> for an unregistered
  name, and those raised by registered functions; \<open>metric\<close> raises \<open>KeyError\<close> exactly
  for a name without a value.
\<close>

theorem unresolved_dependency_KeyError:
  "(ranked (private_metrics ev) (dom (dicts s (metric_values ev))) rank \<and>
    (unresolvable (private_metrics ev) (dom (dicts s (metric_values ev))) name \<or>
     depends_on_unresolvable (private_metrics ev) (dom (dicts s (metric_values ev))) name) \<and>
    rank name < depth \<longrightarrow>
      (\<exists>e s'. compute_metric depth ev name s = (Inl e, s') \<and>
         ((\<exists>k. e = KeyError k \<and> map_of (private_metrics ev) k = None \<and>
               dicts s (metric_values ev) k = None) \<or>
          recipe_raises (private_metrics ev) e))) \<and>
   (\<forall>(ev0 :: ('v, 'w) evaluator) d n s0 e s'.
      compute_metric d ev0 n s0 = (Inl e, s') \<longrightarrow> structural (private_metrics ev0) e) \<and>
   (\<forall>(ev0 :: ('v, 'w) evaluator) n s0 e.
      metric ev0 n s0 = Inl e \<longleftrightarrow> e = KeyError n \<and> dicts s0 (metric_values ev0) n = None)"
proof -
  let ?seeded = "dom (dicts s (metric_values ev))"
  let ?reg = "private_metrics ev"
  have first: "\<exists>e s'. compute_metric depth ev name s = (Inl e, s') \<and>
      ((\<exists>k. e = KeyError k \<and> map_of ?reg k = None \<and> dicts s (metric_values ev) k = None) \<or>
       recipe_raises ?reg e)"
    if acyclic: "ranked ?reg ?seeded rank"
      and dep: "unresolvable ?reg ?seeded name \<or> depends_on_unresolvable ?reg ?seeded name"
      and deep: "rank name < depth"
  proof -
    have inv: "none_cached ev ?seeded s"
      by (auto simp: none_cached_def dest: unresolvable_unseeded)
    obtain r s' where c: "compute_metric depth ev name s = (r, s')"
      by (cases "compute_metric depth ev name s")
    from compute_metric_outcome [OF acyclic inv deep c] dep
    obtain e where e: "r = Inl e" "missing_or_raised ?reg ?seeded e"
      by (auto simp: outcome_ok_def)
    from e(2) have "(\<exists>k. e = KeyError k \<and> map_of ?reg k = None \<and>
        dicts s (metric_values ev) k = None) \<or> recipe_raises ?reg e"
      by (auto simp: missing_or_raised_def)
    with c e(1) show ?thesis by blast
  qed
  have second: "\<forall>(ev0 :: ('v, 'w) evaluator) d n s0 e s'.
      compute_metric d ev0 n s0 = (Inl e, s') \<longrightarrow> structural (private_metrics ev0) e"
    by (blast dest: compute_metric_failures)
  have third: "\<forall>(ev0 :: ('v, 'w) evaluator) n s0 e.
      metric ev0 n s0 = Inl e \<longleftrightarrow> e = KeyError n \<and> dicts s0 (metric_values ev0) n = None"
    by (auto simp: metric_def split: option.splits)
  from first second third show ?thesis by blast
qed

theorem unresolved_dependency_KeyError_witness:
  "ranked (private_metrics broken_ev) {''x''} broken_rank \<and>
   depends_on_unresolvable (private_metrics broken_ev) {''x''} ''z'' \<and>
   broken_rank ''z'' < 3 \<and>
   compute_metric 3 broken_ev ''z'' seeded_x = (Inl (KeyError ''c''), seeded_x) \<and>
   map_of (private_metrics broken_ev) ''c'' = None \<and>
   dicts seeded_x (metric_values broken_ev) ''c'' = None \<and>
   compute_metric 1000 cyclic_ev ''a'' seeded_x = (Inl RecursionError, seeded_x) \<and>
   structural (private_metrics cyclic_ev) RecursionError \<and>
   metric broken_ev ''z'' seeded_x = Inl (KeyError ''z'')"
proof -
  let ?reg = "private_metrics broken_ev"
  let ?seeded = "dom (dicts seeded_x (metric_values broken_ev))"
  have seeded: "?seeded = {''x''}"
    by (auto simp: broken_ev_def seeded_x_def split: if_splits)
  have h1: "ranked ?reg ?seeded broken_rank"
    by (auto simp: ranked_def broken_ev_def broken_rank_def split: if_splits)
  have c: "unresolvable ?reg ?seeded ''c''"
  proof (rule absent)
    show "''c'' \<notin> ?seeded" by (simp add: seeded)
    show "map_of ?reg ''c'' = None" by (simp add: broken_ev_def)
  qed
  have y: "unresolvable ?reg ?seeded ''y''"
  proof (rule dependent)
    show "''y'' \<notin> ?seeded" by (simp add: seeded)
    show "map_of ?reg ''y'' = Some (call_count, [''c''])" by (simp add: broken_ev_def)
    show "''c'' \<in> set [''c'']" by simp
    show "unresolvable ?reg ?seeded ''c''" by (rule c)
  qed
  have "map_of ?reg ''z'' = Some (call_count, [''x'', ''y''])" by (simp add: broken_ev_def)
  with y have h2: "depends_on_unresolvable ?reg ?seeded ''z''"
    unfolding depends_on_unresolvable_def by fastforce
  have h3: "broken_rank ''z'' < 3" by (simp add: broken_rank_def)
  have run: "compute_metric 3 broken_ev ''z'' seeded_x = (Inl (KeyError ''c''), seeded_x)"
    by (simp add: broken_ev_def seeded_x_def eval_nat_numeral)
  note general = unresolved_dependency_KeyError
    [of broken_ev seeded_x broken_rank "''z''" 3]
  from general h1 h2 h3
  have "\<exists>e s'. compute_metric 3 broken_ev ''z'' seeded_x = (Inl e, s') \<and>
      ((\<exists>k. e = KeyError k \<and> map_of ?reg k = None \<and>
          dicts seeded_x (metric_values broken_ev) k = None) \<or> recipe_raises ?reg e)"
    by blast
  with run have missing: "map_of ?reg ''c'' = None \<and>
      dicts seeded_x (metric_values broken_ev) ''c'' = None \<or>
      recipe_raises ?reg (KeyError ''c'')"
    by auto
  have "\<not> recipe_raises ?reg (KeyError ''c'')"
    by (auto simp: recipe_raises_def broken_ev_def call_count_def split: if_splits)
  with missing have gone: "map_of ?reg ''c'' = None"
    "dicts seeded_x (metric_values broken_ev) ''c'' = None"
    by simp_all
  have loop: "compute_metric 1000 cyclic_ev ''a'' seeded_x = (Inl RecursionError, seeded_x)"
    by (rule cyclic_ev_recursion)
  from general
  have "\<forall>(ev0 :: (int, nat) evaluator) d n s0 e s'.
      compute_metric d ev0 n s0 = (Inl e, s') \<longrightarrow> structural (private_metrics ev0) e"
    by blast
  with loop have cyc: "structural (private_metrics cyclic_ev) RecursionError" by blast
  from general
  have "\<forall>(ev0 :: (int, nat) evaluator) n s0 e.
      metric ev0 n s0 = Inl e \<longleftrightarrow> e = KeyError n \<and> dicts s0 (metric_values ev0) n = None"
    by blast
  then have unset: "metric broken_ev ''z'' seeded_x = Inl (KeyError ''z'')"
    by (simp add: broken_ev_def seeded_x_def)
  from h1 h2 h3 seeded have "ranked ?reg {''x''} broken_rank"
    "depends_on_unresolvable ?reg {''x''} ''z''"
    by simp_all
  with h3 run gone loop cyc unset show ?thesis by blast
qed

text \<open>
  C10: \<open>__init__\<close> stores a copy of the caller's dict. For a caller's dict at an allocated
  address \<open>a\<close>, the new evaluator's \<open>metric_values\<close> starts with the same entries at
  another address, and after any sequence of \<open>add_metric\<close>, \<open>compute_metric\<close> and \<open>compute\<close>
  calls, failed ones included, the caller's dict has exactly the entries it had.
\<close>


theorem init_copies_initial_metrics:
  assumes alloc: "a < next_addr s"
    and init: "Evaluator_init (DictRef a) s = (Inr ev, s0)"
    and run: "client depth ev calls s0 = (ev', s')"
  shows "dicts s0 (metric_values ev) = dicts s a \<and> metric_values ev' \<noteq> a \<and> dicts s' a = dicts s a"
proof -
  from init have ev: "metric_values ev = next_addr s"
    and s0: "s0 = s\<lparr>dicts := (dicts s)(next_addr s := dicts s a), next_addr := Suc (next_addr s)\<rparr>"
    by (auto simp: Evaluator_init_def Let_def)
  from client_others_kept [OF run]
  have same: "metric_values ev' = metric_values ev" and kept: "others_kept (metric_values ev) s0 s'"
    by simp_all
  from alloc ev have ne: "a \<noteq> metric_values ev" by simp
  with kept have "dicts s' a = dicts s0 a" by (simp add: others_kept_def)
  also from ne ev s0 have "dicts s0 a = dicts s a" by simp
  finally show ?thesis using same ne ev s0 by simp
qed


theorem init_copies_initial_metrics_witness:
  "(0::nat) < next_addr seeded_x \<and>
   Evaluator_init (DictRef 0) seeded_x = (Inr copied_ev, copied_state) \<and>
   dicts (snd (client 3 copied_ev copied_calls copied_state)) 0 = dicts seeded_x 0 \<and>
   dicts (snd (client 3 copied_ev copied_calls copied_state)) 1 ''z'' = Some 15 \<and>
   dicts seeded_x 0 ''z'' = None"
proof -
  have alloc: "(0::nat) < next_addr seeded_x" by (simp add: seeded_x_def)
  have init: "Evaluator_init (DictRef 0) seeded_x = (Inr copied_ev, copied_state)"
    by (simp add: Evaluator_init_def copied_ev_def copied_state_def seeded_x_def)
  have run: "client 3 copied_ev copied_calls copied_state =
      (fst (client 3 copied_ev copied_calls copied_state),
       snd (client 3 copied_ev copied_calls copied_state))"
    by simp
  have stored: "dicts (snd (client 3 copied_ev copied_calls copied_state)) 1 ''z'' = Some 15"
    by (simp add: copied_calls_def copied_ev_def copied_state_def seeded_x_def add_metric_def
        compute_def add_ten_def dependency_values_def eval_nat_numeral)
  have "dicts seeded_x 0 ''z'' = None" by (simp add: seeded_x_def)
  with init_copies_initial_metrics [OF alloc init run] alloc init stored show ?thesis by blast
qed

section \<open>Properties of the sanitizer\<close>

subsection \<open>The first index that is not NaN\<close>

lemma upt_split_index:
  assumes "[0..<n] = us @ y # vs"
  shows "y = length us \<and> y < n"
proof -
  have len: "length us < n" using arg_cong [OF assms, of length] by simp
  then have "[0..<n] ! length us = length us" by simp
  with assms show ?thesis using len by simp
qed

lemma upt_split_prefix:
  assumes "[0..<n] = us @ y # vs" and "j < length us"
  shows "j \<in> set us"
proof -
  have len: "length us < n" using arg_cong [OF assms(1), of length] by simp
  with assms(2) have "[0..<n] ! j = j" by simp
  with assms have "us ! j = j" by (simp add: nth_append)
  with assms(2) show ?thesis by (metis nth_mem)
qed

lemma nonzero_not_nan_Cons:
  assumes "nonzero_not_nan rets = i # rest"
  shows "i < length rets \<and> \<not> isnan (rets ! i) \<and> (\<forall>j<i. isnan (rets ! j))"
proof -
  from assms obtain us vs where split: "[0..<length rets] = us @ i # vs"
    and before: "\<forall>u\<in>set us. isnan (rets ! u)" and here: "\<not> isnan (rets ! i)"
    unfolding nonzero_not_nan_def filter_eq_Cons_iff by auto
  from upt_split_index [OF split] have i: "i = length us" "i < length rets" by simp_all
  have "isnan (rets ! j)" if "j < i" for j
    using upt_split_prefix [OF split, of j] that i before by simp
  with i here show ?thesis by simp
qed



lemma first_non_nan_index_pos:
  assumes "0 < first_non_nan_index rets"
  shows "nat (first_non_nan_index rets) < length rets \<and>
         (\<forall>j < nat (first_non_nan_index rets). rets ! j = NaN)"
proof (cases "nonzero_not_nan rets")
  case Nil
  with assms show ?thesis by (simp add: first_non_nan_index_def)
next
  case (Cons i rest)
  then have first: "first_non_nan_index rets = int i" by (simp add: first_non_nan_index_def)
  from nonzero_not_nan_Cons [OF Cons]
  have "i < length rets" and "\<forall>j<i. isnan (rets ! j)" by simp_all
  moreover have "x = NaN" if "isnan x" for x using that by (cases x) simp_all
  ultimately show ?thesis using first by simp
qed

lemma first_non_nan_index_bound: "first_non_nan_index rets < int (length rets)"
proof (cases "nonzero_not_nan rets")
  case Nil
  then show ?thesis by (simp add: first_non_nan_index_def)
next
  case (Cons i rest)
  with nonzero_not_nan_Cons [OF Cons] show ?thesis by (simp add: first_non_nan_index_def)
qed

lemma leading_zeroed:
  assumes "0 < first_non_nan_index rets"
  shows "map nan_to_num (take (nat (first_non_nan_index rets)) rets) =
         replicate (nat (first_non_nan_index rets)) (Fin 0)"
proof -
  let ?i = "nat (first_non_nan_index rets)"
  from first_non_nan_index_pos [OF assms]
  have len: "?i < length rets" and nan: "\<forall>j < ?i. rets ! j = NaN" by simp_all
  show ?thesis
  proof (rule nth_equalityI)
    show "length (map nan_to_num (take ?i rets)) = length (replicate ?i (Fin 0))"
      using len by simp
  next
    fix j assume "j < length (map nan_to_num (take ?i rets))"
    with len have j: "j < ?i" by simp
    with nan len show "map nan_to_num (take ?i rets) ! j = replicate ?i (Fin 0) ! j"
      by simp
  qed
qed

subsection \<open>Mask indexing and the values returned\<close>






subsection \<open>The doctests of \<open>handle_non_finite_returns\<close>\<close>


lemma doctest_leading_zeroed:
  "handle_non_finite_returns doctest_days doctest_rets True False =
     ([Fin 0, Fin 0, Fin 3, Fin 4, NaN, Fin 5],
      Inr ([1, 2, 3, 4, 6], [Fin 0, Fin 0, Fin 3, Fin 4, Fin 5]))"
  by (simp add: handle_non_finite_returns_def doctest_days_def doctest_rets_def
      first_non_nan_index_def nonzero_not_nan_def upt_rec [of 0] upt_rec [of "Suc _"]
      eval_nat_numeral mask_index_def Let_def)

lemma doctest_after_zeroing:
  "handle_non_finite_returns doctest_days [Fin 0, Fin 0, Fin 3, Fin 4, NaN, Fin 5] False False =
     ([Fin 0, Fin 0, Fin 3, Fin 4, NaN, Fin 5],
      Inr ([1, 2, 3, 4, 6], [Fin 0, Fin 0, Fin 3, Fin 4, Fin 5]))"
  by (simp add: handle_non_finite_returns_def doctest_days_def
      first_non_nan_index_def nonzero_not_nan_def upt_rec [of 0] upt_rec [of "Suc _"]
      eval_nat_numeral mask_index_def Let_def)

lemma doctest_all_finite:
  "handle_non_finite_returns doctest_days [Fin 1, Fin 2, Fin 3, Fin 4, Fin 4.5, Fin 5] False True =
     ([Fin 1, Fin 2, Fin 3, Fin 4, Fin 4.5, Fin 5],
      Inr (doctest_days, [Fin 1, Fin 2, Fin 3, Fin 4, Fin 4.5, Fin 5]))"
  by (simp add: handle_non_finite_returns_def doctest_days_def
      first_non_nan_index_def nonzero_not_nan_def upt_rec [of 0] upt_rec [of "Suc _"]
      eval_nat_numeral mask_index_def Let_def)

subsection \<open>Claims about the sanitizer\<close>




text \<open>
  C4, as stated: the caller's arrays hold the same values after the call as before. The
  returns array does not when \<open>leading_non_finite_to_zeros\<close> is set: the second doctest
  leaves the caller's \<open>[nan, nan, 3, 4, nan, 5]\<close> as \<open>[0, 0, 3, 4, nan, 5]\<close>.
\<close>

theorem caller_rets_changed_counterexample:
  "fst (handle_non_finite_returns doctest_days doctest_rets True False) =
     [Fin 0, Fin 0, Fin 3, Fin 4, NaN, Fin 5] \<and>
   fst (handle_non_finite_returns doctest_days doctest_rets True False) \<noteq> doctest_rets"
  by (simp add: doctest_leading_zeroed) (simp add: doctest_rets_def)

text \<open>
  C4, amended: the timestamps are never written, and the caller's returns array is left
  as it was except when \<open>leading_non_finite_to_zeros\<close> is set and the first return that
  is not NaN has an index above 0: then the entries before that index, all NaN, are
  overwritten in place with 0.0 and the others are kept.
\<close>

theorem caller_rets_after_sanitizing:
  "fst (handle_non_finite_returns timestamps rets leading subsequent) =
     (if leading \<and> 0 < first_non_nan_index rets
      then replicate (nat (first_non_nan_index rets)) (Fin 0) @
           drop (nat (first_non_nan_index rets)) rets
      else rets) \<and>
   (fst (handle_non_finite_returns timestamps rets leading subsequent) = rets \<longleftrightarrow>
      \<not> (leading \<and> 0 < first_non_nan_index rets))"
proof (cases "leading \<and> 0 < first_non_nan_index rets")
  case False
  then show ?thesis
    by (auto simp: handle_non_finite_returns_def Let_def)
next
  case True
  let ?i = "nat (first_non_nan_index rets)"
  from True have pos: "0 < first_non_nan_index rets" by simp
  from first_non_nan_index_pos [OF pos]
  have len: "?i < length rets" and nan: "\<forall>j < ?i. rets ! j = NaN" by simp_all
  have after: "fst (handle_non_finite_returns timestamps rets leading subsequent) =
      replicate ?i (Fin 0) @ drop ?i rets"
    using True first_non_nan_index_bound [of rets] leading_zeroed [OF pos]
    by (simp add: handle_non_finite_returns_def Let_def)
  from pos nan have "rets ! 0 = NaN" by simp
  moreover from pos have "(replicate ?i (Fin 0) @ drop ?i rets) ! 0 = Fin 0"
    by (simp add: nth_append)
  ultimately have "replicate ?i (Fin 0) @ drop ?i rets \<noteq> rets" by (metis float64.distinct(5))
  with after True show ?thesis by simp
qed

theorem caller_rets_after_sanitizing_witness:
  "first_non_nan_index doctest_rets = 2 \<and>
   fst (handle_non_finite_returns doctest_days doctest_rets True True) =
     [Fin 0, Fin 0, Fin 3, Fin 4, NaN, Fin 5] \<and>
   fst (handle_non_finite_returns doctest_days doctest_rets False True) = doctest_rets"
proof -
  have first: "first_non_nan_index doctest_rets = 2"
    by (simp add: first_non_nan_index_def nonzero_not_nan_def doctest_rets_def
        upt_rec [of 0] upt_rec [of "Suc _"] eval_nat_numeral)
  from caller_rets_after_sanitizing [of doctest_days doctest_rets True True] first
  have "fst (handle_non_finite_returns doctest_days doctest_rets True True) =
      [Fin 0, Fin 0, Fin 3, Fin 4, NaN, Fin 5]"
    by (simp add: doctest_rets_def eval_nat_numeral)
  moreover from caller_rets_after_sanitizing [of doctest_days doctest_rets False True]
  have "fst (handle_non_finite_returns doctest_days doctest_rets False True) = doctest_rets"
    by simp
  ultimately show ?thesis using first by blast
qed

section \<open>Properties of the drawdown functions\<close>

subsection \<open>Running maximum and drawdown of finite equity\<close>

lemma length_expanding_max_from: "length (expanding_max_from m xs) = length xs"
  by (induction xs arbitrary: m) (simp_all add: Let_def)

lemma drawdown_finite:
  assumes "0 < m"
  shows "drawdown (Fin v) (Fin m) = Fin (if m \<le> v then 0 else (m - v) / m) \<and>
         fge (drawdown (Fin v) (Fin m)) (Fin 0)"
  using assms by (simp add: drawdown_def fge_def fsub_def)

lemma drawdowns_from_positive:
  assumes "0 < a" and "list_all isfinite xs"
  shows "list_all (\<lambda>d. fge d (Fin 0)) (map2 drawdown xs (expanding_max_from (Fin a) xs))"
  using assms
proof (induction xs arbitrary: a)
  case Nil
  then show ?case by simp
next
  case (Cons x xs)
  from Cons.prems(2) obtain v where x: "x = Fin v" by (cases x) simp_all
  let ?m = "max a v"
  have m: "fmax (Fin a) (Fin v) = Fin ?m" by (simp add: fmax_def max_def)
  from Cons.prems(1) have pos: "0 < ?m" by simp
  from Cons.prems(2) have "list_all isfinite xs" by simp
  with Cons.IH [OF pos] have "list_all (\<lambda>d. fge d (Fin 0)) (map2 drawdown xs (expanding_max_from (Fin ?m) xs))"
    by simp
  moreover have "fge (drawdown (Fin v) (Fin ?m)) (Fin 0)"
    using drawdown_finite [OF pos, of v] by (rule conjunct2)
  ultimately show ?case using x m by (simp add: Let_def)
qed

lemma drawdowns_positive_start:
  assumes "list_all isfinite equity"
    and "case equity of [] \<Rightarrow> True | e # _ \<Rightarrow> fgt e (Fin 0)"
  shows "list_all (\<lambda>d. fge d (Fin 0)) (map2 drawdown equity (expanding_max equity))"
proof (cases equity)
  case Nil
  then show ?thesis by (simp add: expanding_max_def)
next
  case (Cons e es)
  with assms(1) obtain v where e: "e = Fin v" by (cases e) simp_all
  with Cons assms(2) have pos: "0 < v" by (simp add: fgt_def)
  from Cons assms(1) have "list_all isfinite es" by simp
  from drawdowns_from_positive [OF pos this]
  have "list_all (\<lambda>d. fge d (Fin 0)) (map2 drawdown es (expanding_max_from (Fin v) es))" .
  moreover have "fge (drawdown (Fin v) (Fin v)) (Fin 0)"
    by (simp add: drawdown_def fge_def)
  ultimately show ?thesis using Cons e by (simp add: expanding_max_def Let_def)
qed

subsection \<open>The running maximum is the largest finite value so far\<close>

text \<open>
  The recursion of \<open>expanding_max_from\<close> carries the largest finite value it has met; at
  every index that is \<open>prefix_max\<close>, the maximum of the finite entries up to the index.
\<close>

lemma Max_fold_in:
  "Max (set (max a v # fs)) = Max (set (a # v # fs))"
proof (cases "fs = []")
  case True
  then show ?thesis by (simp add: max.commute)
next
  case False
  then show ?thesis by (simp add: max.assoc)
qed

lemma running_step:
  assumes "m = NaN \<or> isfinite m"
  shows "(\<not> isfinite x \<and> (if \<not> isfinite x then m else if isnan m then x else fmax m x) = m) \<or>
         (\<exists>a. x = Fin a \<and> m = NaN \<and> (if \<not> isfinite x then m else if isnan m then x else fmax m x) = Fin a) \<or>
         (\<exists>a b. x = Fin a \<and> m = Fin b \<and> (if \<not> isfinite x then m else if isnan m then x else fmax m x) = Fin (max b a))"
proof (cases x)
  case (Fin a)
  show ?thesis
  proof (cases m)
    case (Fin b)
    with \<open>x = Fin a\<close> show ?thesis by (simp add: fmax_def max_def)
  next
    case NaN
    with \<open>x = Fin a\<close> show ?thesis by simp
  qed (use assms in simp_all)
qed simp_all


lemma prefix_max_step:
  assumes "m = NaN \<or> isfinite m"
  shows "prefix_max ((if \<not> isfinite x then m else if isnan m then x else fmax m x) # ys) k =
         prefix_max (m # x # ys) (Suc k)"
proof -
  define m' where "m' = (if \<not> isfinite x then m else if isnan m then x else fmax m x)"
  from running_step [OF assms, of x]
  consider "\<not> isfinite x" "m' = m"
    | a where "x = Fin a" "m = NaN" "m' = Fin a"
    | a b where "x = Fin a" "m = Fin b" "m' = Fin (max b a)"
    unfolding m'_def by blast
  then have "prefix_max (m' # ys) k = prefix_max (m # x # ys) (Suc k)"
  proof cases
    case 1
    then show ?thesis by (simp add: prefix_max_def finite_prefix_def)
  next
    case 2
    then show ?thesis by (simp add: prefix_max_def finite_prefix_def)
  next
    case 3
    have "finite_prefix (m' # ys) k = max b a # finite_prefix ys (k - 1)
          \<and> finite_prefix (m # x # ys) (Suc k) = b # a # finite_prefix ys (k - 1)
        \<or> finite_prefix (m' # ys) k = [max b a]
          \<and> finite_prefix (m # x # ys) (Suc k) = [b, a]"
      using 3 by (cases k) (simp_all add: finite_prefix_def)
    then show ?thesis
      unfolding prefix_max_def using Max_fold_in [of b a] by (elim disjE conjE) simp_all
  qed
  then show ?thesis unfolding m'_def .
qed

lemma prefix_max_head:
  "m = NaN \<or> isfinite m \<Longrightarrow> prefix_max (m # ys) 0 = m"
  by (cases m) (simp_all add: prefix_max_def finite_prefix_def)

lemma expanding_max_from_prefix:
  assumes "m = NaN \<or> isfinite m" and "i < length xs"
  shows "expanding_max_from m xs ! i = prefix_max (m # xs) (Suc i)"
  using assms
proof (induction xs arbitrary: m i)
  case Nil
  then show ?case by simp
next
  case (Cons x xs)
  define m' where "m' = (if \<not> isfinite x then m else if isnan m then x else fmax m x)"
  have m': "m' = NaN \<or> isfinite m'"
    using running_step [OF Cons.prems(1), of x] Cons.prems(1) unfolding m'_def by auto
  have unfold: "expanding_max_from m (x # xs) = m' # expanding_max_from m' xs"
    by (simp add: m'_def Let_def)
  have step: "prefix_max (m' # xs) k = prefix_max (m # x # xs) (Suc k)" for k
    unfolding m'_def by (rule prefix_max_step [OF Cons.prems(1)])
  show ?case
  proof (cases i)
    case 0
    then show ?thesis using unfold step [of 0] prefix_max_head [OF m'] by simp
  next
    case (Suc j)
    with Cons.prems(2) have j: "j < length xs" by simp
    from Cons.IH [OF m' j] Suc unfold step [of "Suc j"] show ?thesis by simp
  qed
qed

lemma expanding_max_prefix:
  assumes "i < length xs"
  shows "expanding_max xs ! i = prefix_max xs i"
proof -
  have "finite_prefix (NaN # xs) (Suc i) = finite_prefix xs i"
    by (simp add: finite_prefix_def)
  then have "prefix_max (NaN # xs) (Suc i) = prefix_max xs i"
    by (simp add: prefix_max_def)
  with expanding_max_from_prefix [of NaN i xs] assms show ?thesis
    by (simp add: expanding_max_def)
qed

lemma prefix_max_finite:
  assumes "list_all isfinite xs" and "i < length xs"
  shows "prefix_max xs i = Fin (Max (real_of ` set (take (Suc i) xs)))"
proof -
  from assms(1) have "list_all isfinite (take (Suc i) xs)"
    by (auto simp: list_all_iff dest: in_set_takeD)
  then have "filter isfinite (take (Suc i) xs) = take (Suc i) xs"
    by (simp add: list_all_iff)
  then have fp: "finite_prefix xs i = map real_of (take (Suc i) xs)"
    by (simp add: finite_prefix_def)
  from assms(2) have "take (Suc i) xs \<noteq> []" by auto
  with fp show ?thesis by (simp add: prefix_max_def)
qed

subsection \<open>The shape of the results\<close>

text \<open>
  What \<open>compute_rolling_dd\<close> returns is the timestamps with as many drawdowns, and
  \<open>compute_rolling_dd_3yr\<close> returns such a pair whenever the timestamps are not empty.
\<close>

lemma rolling_dd_aligned:
  assumes "compute_rolling_dd timestamps equity = Inr (dates, dd)"
  shows "dates = timestamps \<and> length dd = length dates"
  using assms
  by (auto simp: compute_rolling_dd_def Let_def expanding_max_def length_expanding_max_from
      split: if_splits)

lemma rolling_dd_3yr_nonempty_pair:
  assumes "timestamps \<noteq> []" and "compute_rolling_dd_3yr timestamps equity = Inr v"
  shows "\<exists>dates dd. v = TwoArrays dates dd \<and> length dd = length dates"
  using assms
  by (auto simp: compute_rolling_dd_3yr_def split: sum.splits dest: rolling_dd_aligned)

subsection \<open>Claims about rolling drawdown\<close>

text \<open>
  C5, as stated: for equal lengths every drawdown is at least 0, and it is exactly 0
  wherever the equity is \<open>\<ge>\<close> its running maximum. The first part fails when the running
  maximum is negative (an equity of \<open>-1\<close> followed by \<open>-2\<close> gives the drawdown \<open>-1\<close>) and
  when the equity is NaN (the drawdown is NaN, which is not \<open>\<ge> 0\<close>). The second part fails
  for an infinite equity: \<open>+inf\<close> is \<open>\<ge>\<close> itself, but pandas leaves the infinities out of
  the running maximum, which is then NaN, and so is the drawdown.
\<close>

theorem rolling_dd_negative_counterexample:
  "compute_rolling_dd [1::nat, 2] [Fin (- 1), Fin (- 2)] = Inr ([1, 2], [Fin 0, Fin (- 1)]) \<and>
   \<not> fge (Fin (- 1)) (Fin 0) \<and>
   compute_rolling_dd [1::nat, 2] [Fin 1, NaN] = Inr ([1, 2], [Fin 0, NaN]) \<and>
   \<not> fge NaN (Fin 0) \<and>
   compute_rolling_dd [1::nat] [PInf] = Inr ([1], [NaN]) \<and>
   fge PInf PInf"
  by (simp add: compute_rolling_dd_def expanding_max_def drawdown_def fge_def fmax_def fsub_def
      Let_def)

text \<open>
  C5, amended: for equal lengths \<open>compute_rolling_dd\<close> returns the timestamps and one
  drawdown per equity value. The running maximum at an index is the largest finite
  equity value up to that index (NaN when there is none; infinities and NaN are
  skipped), which for an all-finite equity is the largest value so far. Each drawdown is
  0 where the equity is \<open>\<ge>\<close> this running maximum and \<open>-(equity - max) / max\<close> elsewhere.
  When every equity value is finite and the first one is positive, every drawdown is
  \<open>\<ge> 0\<close>.
\<close>

theorem rolling_dd_nonnegative:
  assumes "length timestamps = length equity"
  shows "\<exists>dd. compute_rolling_dd timestamps equity = Inr (timestamps, dd) \<and>
           length dd = length equity \<and>
           (\<forall>i<length equity. dd ! i = drawdown (equity ! i) (prefix_max equity i)) \<and>
           (\<forall>i<length equity. fge (equity ! i) (prefix_max equity i) \<longrightarrow> dd ! i = Fin 0) \<and>
           (list_all isfinite equity \<longrightarrow>
              (\<forall>i<length equity.
                 prefix_max equity i = Fin (Max (real_of ` set (take (Suc i) equity))))) \<and>
           (list_all isfinite equity \<and> (case equity of [] \<Rightarrow> True | e # _ \<Rightarrow> fgt e (Fin 0)) \<longrightarrow>
              list_all (\<lambda>d. fge d (Fin 0)) dd)"
proof -
  let ?dd = "map2 drawdown equity (expanding_max equity)"
  have lenm: "length (expanding_max equity) = length equity"
    by (simp add: expanding_max_def length_expanding_max_from)
  then have len: "length ?dd = length equity" by simp
  have run: "compute_rolling_dd timestamps equity = Inr (timestamps, ?dd)"
    using assms by (auto simp: compute_rolling_dd_def Let_def expanding_max_def)
  have nth: "?dd ! i = drawdown (equity ! i) (prefix_max equity i)"
    if "i < length equity" for i
  proof -
    from that lenm have "?dd ! i = drawdown (equity ! i) (expanding_max equity ! i)" by simp
    with expanding_max_prefix [OF that] show ?thesis by simp
  qed
  have zero: "?dd ! i = Fin 0"
    if "i < length equity" "fge (equity ! i) (prefix_max equity i)" for i
    using nth [OF that(1)] that(2) by (simp add: drawdown_def)
  have largest: "prefix_max equity i = Fin (Max (real_of ` set (take (Suc i) equity)))"
    if "list_all isfinite equity" "i < length equity" for i
    using that by (rule prefix_max_finite)
  have nonneg: "list_all (\<lambda>d. fge d (Fin 0)) ?dd"
    if "list_all isfinite equity" "case equity of [] \<Rightarrow> True | e # _ \<Rightarrow> fgt e (Fin 0)"
    using that by (rule drawdowns_positive_start)
  show ?thesis
  proof (intro exI [of _ ?dd] conjI allI impI)
    show "compute_rolling_dd timestamps equity = Inr (timestamps, ?dd)" by (rule run)
    show "length ?dd = length equity" by (rule len)
    show "?dd ! i = drawdown (equity ! i) (prefix_max equity i)" if "i < length equity" for i
      using that by (rule nth)
    show "?dd ! i = Fin 0"
      if "i < length equity" "fge (equity ! i) (prefix_max equity i)" for i
      using that by (rule zero)
    show "prefix_max equity i = Fin (Max (real_of ` set (take (Suc i) equity)))"
      if "list_all isfinite equity" "i < length equity" for i
      using that by (rule largest)
    show "list_all (\<lambda>d. fge d (Fin 0)) ?dd"
      if "list_all isfinite equity \<and> (case equity of [] \<Rightarrow> True | e # _ \<Rightarrow> fgt e (Fin 0))"
      using that nonneg by blast
  qed
qed

theorem rolling_dd_nonnegative_witness:
  "length [1::nat, 2, 3] = length [Fin 100, Fin 50, Fin 200] \<and>
   compute_rolling_dd [1::nat, 2, 3] [Fin 100, Fin 50, Fin 200] =
     Inr ([1, 2, 3], [Fin 0, Fin (1 / 2), Fin 0]) \<and>
   prefix_max [Fin 100, Fin 50, Fin 200] 1 = Fin 100 \<and>
   drawdown (Fin 50) (Fin 100) = Fin (1 / 2) \<and>
   fge (Fin 200) (prefix_max [Fin 100, Fin 50, Fin 200] 2) \<and>
   list_all isfinite [Fin 100, Fin 50, Fin 200] \<and> fgt (Fin 100) (Fin 0) \<and>
   list_all (\<lambda>d. fge d (Fin 0)) [Fin 0, Fin (1 / 2), Fin 0]"
proof -
  let ?equity = "[Fin 100, Fin 50, Fin 200]"
  have len: "length [1::nat, 2, 3] = length ?equity" by simp
  have fin: "list_all isfinite ?equity" by simp
  have pos: "fgt (Fin 100) (Fin 0)" by (simp add: fgt_def)
  from rolling_dd_nonnegative [OF len] obtain dd where
    dd: "compute_rolling_dd [1::nat, 2, 3] ?equity = Inr ([1, 2, 3], dd)"
    and size: "length dd = length ?equity"
    and nth: "\<forall>i<length ?equity. dd ! i = drawdown (?equity ! i) (prefix_max ?equity i)"
    and zero: "\<forall>i<length ?equity. fge (?equity ! i) (prefix_max ?equity i) \<longrightarrow> dd ! i = Fin 0"
    and largest: "list_all isfinite ?equity \<longrightarrow>
        (\<forall>i<length ?equity. prefix_max ?equity i = Fin (Max (real_of ` set (take (Suc i) ?equity))))"
    and nonneg: "list_all isfinite ?equity \<and>
        (case ?equity of [] \<Rightarrow> True | e # _ \<Rightarrow> fgt e (Fin 0)) \<longrightarrow>
        list_all (\<lambda>d. fge d (Fin 0)) dd"
    by blast
  from largest fin have "prefix_max ?equity 1 = Fin (Max (real_of ` set (take (Suc 1) ?equity)))"
    by simp
  then have m1: "prefix_max ?equity 1 = Fin 100" by simp
  from largest fin have "prefix_max ?equity 2 = Fin (Max (real_of ` set (take (Suc 2) ?equity)))"
    by simp
  then have m2: "prefix_max ?equity 2 = Fin 200" by simp
  from largest fin have "prefix_max ?equity 0 = Fin (Max (real_of ` set (take (Suc 0) ?equity)))"
    by simp
  then have m0: "prefix_max ?equity 0 = Fin 100" by simp
  have top: "fge (Fin 200) (prefix_max ?equity 2)" using m2 by (simp add: fge_def)
  from zero top have d2: "dd ! 2 = Fin 0" by simp
  from zero m0 have d0: "dd ! 0 = Fin 0" by (simp add: fge_def)
  have half: "drawdown (Fin 50) (Fin 100) = Fin (1 / 2)"
    by (simp add: drawdown_def fge_def fsub_def)
  from nth m1 half have d1: "dd ! 1 = Fin (1 / 2)" by simp
  from size obtain a b c where "dd = [a, b, c]"
    by (cases dd; cases "tl dd"; cases "tl (tl dd)") auto
  with d0 d1 d2 have val: "dd = [Fin 0, Fin (1 / 2), Fin 0]" by simp
  with nonneg fin pos have "list_all (\<lambda>d. fge d (Fin 0)) [Fin 0, Fin (1 / 2), Fin 0]" by simp
  with len dd val m1 half top fin pos show ?thesis by blast
qed

text \<open>
  C6: both functions are to return a pair of two aligned sequences for every input, the
  empty series included. \<open>compute_rolling_dd\<close> does; \<open>compute_rolling_dd_3yr\<close> returns a
  single empty array for the empty series, against its own return annotation
  \<open>Tuple[np.ndarray, np.ndarray]\<close> and unlike \<open>compute_rolling_dd\<close> on the same input.
\<close>

theorem rolling_dd_3yr_empty_single_array:
  "compute_rolling_dd_3yr [] [] = Inr (OneArray []) \<and>
   compute_rolling_dd ([] :: datetime64 list) [] = Inr ([], [])"
  by (simp add: compute_rolling_dd_3yr_def compute_rolling_dd_def)

text \<open>
  C7: the three functions of the trailing three years are to work on one and the same
  set of timestamps, those after the cutoff. With two timestamps exactly three years
  apart, \<open>compute_dates_3yr\<close> and \<open>compute_returns_3yr\<close> keep the last entry only, while
  \<open>compute_rolling_dd_3yr\<close>, whose mask is \<open>>=\<close>, computes the drawdown over both and finds
  a drawdown of one half that lies outside the window of the other two. A last timestamp
  on 29 February has no date three years earlier and \<open>replace\<close> raises \<open>ValueError\<close>.
\<close>

theorem rolling_dd_3yr_window_differs:
  "compute_dates_3yr [new_year_2015, new_year_2018] = Inr [new_year_2018] \<and>
   compute_returns_3yr [new_year_2015, new_year_2018] [Fin 1, Fin 2] = Inr [Fin 2] \<and>
   compute_rolling_dd_3yr [new_year_2015, new_year_2018] [Fin 100, Fin 50] =
     Inr (TwoArrays [new_year_2015, new_year_2018] [Fin 0, Fin (1 / 2)]) \<and>
   compute_rolling_dd [new_year_2018] [Fin 50] = Inr ([new_year_2018], [Fin 0]) \<and>
   compute_dates_3yr [\<lparr>year = 2020, month = 2, day = 29, tod = 0\<rparr>] = Inl ValueError"
  by (simp add: compute_returns_3yr_def compute_dates_3yr_def compute_rolling_dd_3yr_def
      start_3yr_def replace_year_def days_in_month_def is_leap_def
      new_year_2015_def new_year_2018_def mask_index_def dt_less_def dt_le_def
      compute_rolling_dd_def expanding_max_def drawdown_def fge_def fmax_def fsub_def Let_def)

section \<open>Properties of the Sortino ratio\<close>

subsection \<open>The array handed to \<open>np.std\<close>\<close>

text \<open>
  The two \<open>np.where\<close> of the code build the downside series, and the result is the
  guarded quotient of \<open>amean\<close> and the deviation of that series.
\<close>

lemma normalized_rets_downside:
  "map (\<lambda>r. if fgt r (Fin 0) then Fin 0 else r)
     (map (\<lambda>r. if \<not> isfinite r then Fin 0 else r) returns) =
   downside_series returns"
proof -
  have "(if fgt (if \<not> isfinite r then Fin 0 else r) (Fin 0) then Fin 0
         else (if \<not> isfinite r then Fin 0 else r)) =
        (if isfinite r \<and> fle r (Fin 0) then r else Fin 0)" for r
    by (cases r) (simp_all add: fgt_def)
  then show ?thesis by (simp add: downside_series_def comp_def)
qed

lemma downside_series_values:
  "length (downside_series returns) = length returns \<and>
   list_all (\<lambda>x. isfinite x \<and> fle x (Fin 0)) (downside_series returns)"
  by (auto simp: downside_series_def list_all_iff)

lemma compute_sortino_eq:
  "compute_sortino np_std returns amean periods_per_year =
     (if returns = [] \<or> \<not> isfinite amean \<or> fle periods_per_year (Fin 0) then NaN
      else if feq (np_std (downside_series returns)) (Fin 0) then NaN
      else fdiv amean (fmul (np_std (downside_series returns)) (fsqrt periods_per_year)))"
  unfolding compute_sortino_def Let_def normalized_rets_downside by simp

lemma ratio_not_nan:
  assumes "flt (Fin 0) p" and "\<not> feq s (Fin 0)" and "\<not> isnan s"
  shows "\<not> isnan (fdiv (Fin a) (fmul s (fsqrt p)))"
proof (cases p)
  case (Fin p')
  with assms(1) have pos: "0 < p'" by simp
  then have root: "0 < sqrt p'" by simp
  show ?thesis
  proof (cases s)
    case (Fin s')
    with assms(2) have "s' \<noteq> 0" by (simp add: feq_def)
    with root have "s' * sqrt p' \<noteq> 0" by simp
    with Fin \<open>p = Fin p'\<close> pos show ?thesis by simp
  next
    case PInf
    with \<open>p = Fin p'\<close> pos root show ?thesis by (simp add: signed_inf_def)
  next
    case NInf
    with \<open>p = Fin p'\<close> pos root show ?thesis by (simp add: signed_inf_def)
  next
    case NaN
    with assms(3) show ?thesis by simp
  qed
next
  case PInf
  show ?thesis
  proof (cases s)
    case (Fin s')
    with assms(2) have "s' \<noteq> 0" by (simp add: feq_def)
    with Fin PInf show ?thesis by (simp add: signed_inf_def sgn_if)
  next
    case NaN
    with assms(3) show ?thesis by simp
  qed (use PInf in \<open>simp_all add: signed_inf_def\<close>)
next
  case NInf
  with assms(1) show ?thesis by simp
next
  case NaN
  with assms(1) show ?thesis by simp
qed

lemma positive_or_nan:
  "\<not> fle p (Fin 0) \<Longrightarrow> \<not> isnan p \<Longrightarrow> flt (Fin 0) p"
  by (cases p) simp_all

subsection \<open>Claim about the Sortino ratio\<close>

text \<open>
  C8, as stated: the result is NaN exactly when the returns are empty, \<open>amean\<close> is not
  finite, \<open>periods_per_year \<le> 0\<close> or the downside deviation is 0. A \<open>periods_per_year\<close>
  that is NaN meets none of the four (\<open>nan <= 0\<close> is false, so the guard lets it through)
  and the result is NaN all the same. The returns are \<open>[-1, 1]\<close>; the deviation of their
  downside series \<open>[-1, 0]\<close> is one half, which \<open>np.std\<close> computes without rounding.
\<close>

theorem sortino_nan_periods_counterexample:
  "compute_sortino exact_std [Fin (- 1), Fin 1] (Fin 3) NaN = NaN \<and>
   [Fin (- 1), Fin 1] \<noteq> [] \<and> isfinite (Fin 3) \<and> \<not> fle NaN (Fin 0) \<and>
   downside_series [Fin (- 1), Fin 1] = [Fin (- 1), Fin 0] \<and>
   exact_std [Fin (- 1), Fin 0] = Fin (1 / 2) \<and> \<not> feq (Fin (1 / 2)) (Fin 0)"
  by (simp add: compute_sortino_eq exact_std_def population_std_def downside_series_def Let_def
      power2_eq_square real_sqrt_divide feq_def)

text \<open>
  C8, amended: with \<open>\<sigma>\<close> the value \<open>np.std\<close> returns for the downside series, the result
  is NaN exactly when the returns are empty, \<open>amean\<close> is not finite, \<open>periods_per_year\<close>
  is \<open>\<le> 0\<close> or NaN, or \<open>\<sigma>\<close> is 0 or NaN. When the returns are not empty, \<open>amean\<close> is
  finite, \<open>periods_per_year\<close> is not \<open>\<le> 0\<close> and \<open>\<sigma>\<close> is not 0, the result is \<open>amean\<close> divided
  by \<open>\<sigma>\<close> times \<open>sqrt(periods_per_year)\<close>. This holds for every function in the place of
  \<open>np.std\<close>, so for the rounded deviation that numpy computes.
\<close>

theorem sortino_nan_iff:
  "(isnan (compute_sortino np_std returns amean periods_per_year) \<longleftrightarrow>
      returns = [] \<or> \<not> isfinite amean \<or> fle periods_per_year (Fin 0) \<or>
      isnan periods_per_year \<or> feq (np_std (downside_series returns)) (Fin 0) \<or>
      isnan (np_std (downside_series returns))) \<and>
   (\<not> (returns = [] \<or> \<not> isfinite amean \<or> fle periods_per_year (Fin 0) \<or>
        feq (np_std (downside_series returns)) (Fin 0)) \<longrightarrow>
      compute_sortino np_std returns amean periods_per_year =
        fdiv amean (fmul (np_std (downside_series returns)) (fsqrt periods_per_year)))"
proof -
  let ?std = "np_std (downside_series returns)"
  let ?guard = "returns = [] \<or> \<not> isfinite amean \<or> fle periods_per_year (Fin 0) \<or>
      feq ?std (Fin 0)"
  note eq = compute_sortino_eq [of np_std returns amean periods_per_year]
  have formula: "compute_sortino np_std returns amean periods_per_year =
      fdiv amean (fmul ?std (fsqrt periods_per_year))" if "\<not> ?guard"
    using that eq by simp
  have nan: "isnan (compute_sortino np_std returns amean periods_per_year) \<longleftrightarrow>
      ?guard \<or> isnan periods_per_year \<or> isnan ?std"
  proof (cases ?guard)
    case True
    then show ?thesis using eq by auto
  next
    case False
    then obtain a where amean: "amean = Fin a" by (cases amean) simp_all
    show ?thesis
    proof (cases "isnan periods_per_year \<or> isnan ?std")
      case True
      then have "fmul ?std (fsqrt periods_per_year) = NaN"
        by (cases periods_per_year; cases ?std) simp_all
      with False formula amean True show ?thesis by simp
    next
      case clean: False
      with False have "flt (Fin 0) periods_per_year" by (simp add: positive_or_nan)
      from ratio_not_nan [OF this, of ?std a] False clean
      have "\<not> isnan (fdiv (Fin a) (fmul ?std (fsqrt periods_per_year)))" by simp
      with False formula amean clean show ?thesis by simp
    qed
  qed
  from nan formula show ?thesis by blast
qed

theorem sortino_nan_iff_witness:
  "downside_series [Fin (- 1), Fin 1] = [Fin (- 1), Fin 0] \<and>
   exact_std [Fin (- 1), Fin 0] = Fin (1 / 2) \<and>
   compute_sortino exact_std [Fin (- 1), Fin 1] (Fin 3) (Fin 4) = Fin 3 \<and>
   \<not> isnan (compute_sortino exact_std [Fin (- 1), Fin 1] (Fin 3) (Fin 4)) \<and>
   isnan (compute_sortino exact_std [Fin (- 1), Fin 1] (Fin 3) (Fin (- 4))) \<and>
   downside_series [Fin 1, PInf] = [Fin 0, Fin 0] \<and>
   exact_std [Fin 0, Fin 0] = Fin 0 \<and>
   isnan (compute_sortino exact_std [Fin 1, PInf] (Fin 3) (Fin 4))"
proof -
  let ?returns = "[Fin (- 1), Fin 1]"
  have down: "downside_series ?returns = [Fin (- 1), Fin 0]"
    by (simp add: downside_series_def)
  have std: "exact_std [Fin (- 1), Fin 0] = Fin (1 / 2)"
    by (simp add: exact_std_def population_std_def Let_def power2_eq_square real_sqrt_divide)
  have flat: "downside_series [Fin 1, PInf] = [Fin 0, Fin 0]"
    by (simp add: downside_series_def)
  have zero: "exact_std [Fin 0, Fin 0] = Fin 0"
    by (simp add: exact_std_def population_std_def Let_def)
  note general = sortino_nan_iff [of exact_std]
  from general [of ?returns "Fin 3" "Fin 4"] down std
  have ratio: "compute_sortino exact_std ?returns (Fin 3) (Fin 4) = Fin 3"
    by (simp add: feq_def)
  from general [of ?returns "Fin 3" "Fin 4"] down std
  have finite: "\<not> isnan (compute_sortino exact_std ?returns (Fin 3) (Fin 4))"
    by (simp add: feq_def)
  from general [of ?returns "Fin 3" "Fin (- 4)"]
  have negative: "isnan (compute_sortino exact_std ?returns (Fin 3) (Fin (- 4)))" by simp
  from general [of "[Fin 1, PInf]" "Fin 3" "Fin 4"] flat zero
  have "isnan (compute_sortino exact_std [Fin 1, PInf] (Fin 3) (Fin 4))"
    by (simp add: feq_def)
  with down std ratio finite negative flat zero show ?thesis by blast
qed

section \<open>Properties of the pipeline's entry\<close>

text \<open>
  C9, as stated: mismatched lengths, like the other contract violations, are detected at
  entry, before sanitization. The entry has no assertion on the lengths: one timestamp
  with two returns passes the three assertions, the sanitizer overwrites the leading NaN
  of the caller's array, and the evaluation is started on arrays of lengths 1 and 2.
\<close>

theorem mismatched_lengths_counterexample:
  "compute_return_metrics lengths_seen (Datetime64Array [new_year_2015])
     (Float64Array [NaN, Fin 1]) (Fin 1) True True =
   (Float64Array [Fin 0, Fin 1], Inr (1, 2))"
  by (simp add: compute_return_metrics_def lengths_seen_def fgt_def
      monotonically_increasing_def handle_non_finite_returns_def first_non_nan_index_def
      nonzero_not_nan_def upt_rec [of 0] upt_rec [of "Suc _"] eval_nat_numeral Let_def)

text \<open>
  C9, amended: a starting equity that is not above 0, a \<open>rets\<close> that is not a float64
  array and a \<open>timestamps\<close> that is not a strictly increasing datetime64 array (so also
  one with a duplicate) each end the call with \<open>AssertionError\<close> at entry, with the
  caller's array untouched and nothing evaluated. When the three assertions hold the
  call goes on to the sanitizer and then to the evaluation, whatever the two lengths
  are.
\<close>

theorem entry_checks:
  "(\<not> entry_ok timestamps rets starting_equity \<longrightarrow>
      compute_return_metrics evaluate timestamps rets starting_equity leading subsequent =
        (rets, Inl AssertionError)) \<and>
   (entry_ok (Datetime64Array t) (Float64Array r) starting_equity \<longrightarrow>
      compute_return_metrics evaluate (Datetime64Array t) (Float64Array r) starting_equity
          leading subsequent =
        (case handle_non_finite_returns t r leading subsequent of
           (caller_rets, Inl e) \<Rightarrow> (Float64Array caller_rets, Inl e)
         | (caller_rets, Inr (t', r')) \<Rightarrow>
             (Float64Array caller_rets, evaluate t' r' starting_equity)))"
  by (auto simp: entry_ok_def compute_return_metrics_def split: pyobject.splits)

theorem entry_checks_witness:
  "\<not> entry_ok (Datetime64Array [new_year_2018, new_year_2015]) (Float64Array [NaN, Fin 2]) (Fin 1) \<and>
   compute_return_metrics lengths_seen (Datetime64Array [new_year_2018, new_year_2015])
     (Float64Array [NaN, Fin 2]) (Fin 1) True True =
     (Float64Array [NaN, Fin 2], Inl AssertionError) \<and>
   \<not> entry_ok (Datetime64Array [new_year_2015, new_year_2015]) (Float64Array [NaN, Fin 2]) (Fin 1) \<and>
   compute_return_metrics lengths_seen (Datetime64Array [new_year_2015, new_year_2015])
     (Float64Array [NaN, Fin 2]) (Fin 1) True True =
     (Float64Array [NaN, Fin 2], Inl AssertionError) \<and>
   \<not> entry_ok (Datetime64Array [new_year_2015, new_year_2018]) (Float64Array [NaN, Fin 2]) (Fin 0) \<and>
   compute_return_metrics lengths_seen (Datetime64Array [new_year_2015, new_year_2018])
     (Float64Array [NaN, Fin 2]) (Fin 0) True True =
     (Float64Array [NaN, Fin 2], Inl AssertionError) \<and>
   \<not> entry_ok (Datetime64Array [new_year_2015, new_year_2018]) OtherObject (Fin 1) \<and>
   compute_return_metrics lengths_seen (Datetime64Array [new_year_2015, new_year_2018])
     OtherObject (Fin 1) True True = (OtherObject, Inl AssertionError) \<and>
   entry_ok (Datetime64Array [new_year_2015, new_year_2018]) (Float64Array [NaN, Fin 2]) (Fin 1) \<and>
   compute_return_metrics lengths_seen (Datetime64Array [new_year_2015, new_year_2018])
     (Float64Array [NaN, Fin 2]) (Fin 1) True True =
     (Float64Array [Fin 0, Fin 2], Inr (2, 2))"
proof -
  let ?rets = "Float64Array [NaN, Fin 2]"
  let ?good = "Datetime64Array [new_year_2015, new_year_2018]"
  have a: "\<not> entry_ok (Datetime64Array [new_year_2018, new_year_2015]) ?rets (Fin 1)"
    by (simp add: entry_ok_def monotonically_increasing_def dt_less_def new_year_2015_def
        new_year_2018_def)
  have b: "\<not> entry_ok (Datetime64Array [new_year_2015, new_year_2015]) ?rets (Fin 1)"
    by (simp add: entry_ok_def monotonically_increasing_def dt_less_def)
  have c: "\<not> entry_ok ?good ?rets (Fin 0)"
    by (simp add: entry_ok_def fgt_def)
  have d: "\<not> entry_ok ?good OtherObject (Fin 1)"
    by (simp add: entry_ok_def)
  have e: "entry_ok ?good ?rets (Fin 1)"
    by (simp add: entry_ok_def fgt_def monotonically_increasing_def dt_less_def
        new_year_2015_def new_year_2018_def)
  have run: "handle_non_finite_returns [new_year_2015, new_year_2018] [NaN, Fin 2] True True =
      ([Fin 0, Fin 2], Inr ([new_year_2015, new_year_2018], [Fin 0, Fin 2]))"
    by (simp add: handle_non_finite_returns_def first_non_nan_index_def nonzero_not_nan_def
        upt_rec [of 0] upt_rec [of "Suc _"] eval_nat_numeral Let_def)
  note general = entry_checks [where evaluate = lengths_seen and leading = True
      and subsequent = True]
  from general [of "Datetime64Array [new_year_2018, new_year_2015]" ?rets "Fin 1"] a
  have a': "compute_return_metrics lengths_seen (Datetime64Array [new_year_2018, new_year_2015])
      ?rets (Fin 1) True True = (?rets, Inl AssertionError)"
    by blast
  from general [of "Datetime64Array [new_year_2015, new_year_2015]" ?rets "Fin 1"] b
  have b': "compute_return_metrics lengths_seen (Datetime64Array [new_year_2015, new_year_2015])
      ?rets (Fin 1) True True = (?rets, Inl AssertionError)"
    by blast
  from general [of ?good ?rets "Fin 0"] c
  have c': "compute_return_metrics lengths_seen ?good ?rets (Fin 0) True True =
      (?rets, Inl AssertionError)"
    by blast
  from general [of ?good OtherObject "Fin 1"] d
  have d': "compute_return_metrics lengths_seen ?good OtherObject (Fin 1) True True =
      (OtherObject, Inl AssertionError)"
    by blast
  from general [of _ _ "Fin 1" "[new_year_2015, new_year_2018]" "[NaN, Fin 2]"] e
  have "compute_return_metrics lengths_seen ?good ?rets (Fin 1) True True =
      (case handle_non_finite_returns [new_year_2015, new_year_2018] [NaN, Fin 2] True True of
         (caller_rets, Inl e) \<Rightarrow> (Float64Array caller_rets, Inl e)
       | (caller_rets, Inr (t', r')) \<Rightarrow> (Float64Array caller_rets, lengths_seen t' r' (Fin 1)))"
    by blast
  then have e': "compute_return_metrics lengths_seen ?good ?rets (Fin 1) True True =
      (Float64Array [Fin 0, Fin 2], Inr (2, 2))"
    by (simp add: run lengths_seen_def)
  from a a' b b' c c' d d' e e' show ?thesis by blast
qed

end
